theory Spec2Isabelle
  imports Complex_Main "HOL-Library.List_Lexorder" "HOL-Library.Char_ord" "HOL-Library.AList"
begin

section \<open>Game state manager (src/state/gameStateManager.js)\<close>

text \<open>
  The observable state holder.  JavaScript numbers are modelled as real numbers, and a call
  of \<open>emit(event, payload)\<close> is recorded by appending the pair to the log \<open>emitted\<close>.
\<close>

record game_state_manager =
  score :: real
  health :: real
  energy :: real
  level :: real
  emitted :: "(string \<times> real) list"

definition emit :: "string \<Rightarrow> real \<Rightarrow> game_state_manager \<Rightarrow> game_state_manager" where
  "emit event payload s = s\<lparr>emitted := emitted s @ [(event, payload)]\<rparr>"

definition set_score :: "real \<Rightarrow> game_state_manager \<Rightarrow> game_state_manager" where
  "set_score v s = (let s1 = s\<lparr>score := v\<rparr> in emit ''scoreChanged'' (score s1) s1)"

definition set_health :: "real \<Rightarrow> game_state_manager \<Rightarrow> game_state_manager" where
  "set_health v s =
     (let normalized = max 0 (min 100 v) in
      if normalized = health s then s
      else (let s1 = s\<lparr>health := normalized\<rparr> in emit ''healthChanged'' (health s1) s1))"

definition set_energy :: "real \<Rightarrow> game_state_manager \<Rightarrow> game_state_manager" where
  "set_energy v s =
     (let normalized = max 0 (min 100 v) in
      if normalized = energy s then s
      else (let s1 = s\<lparr>energy := normalized\<rparr> in emit ''energyChanged'' (energy s1) s1))"

definition set_level :: "real \<Rightarrow> game_state_manager \<Rightarrow> game_state_manager" where
  "set_level v s = (let s1 = s\<lparr>level := v\<rparr> in emit ''levelChanged'' (level s1) s1)"

definition addScore :: "real \<Rightarrow> real \<Rightarrow> game_state_manager \<Rightarrow> game_state_manager" where
  "addScore points multiplier s = set_score (score s + points * multiplier) s"

definition reset :: "game_state_manager \<Rightarrow> game_state_manager" where
  "reset s = s\<lparr>score := 0, health := 100, energy := 100, level := 1\<rparr>"

text \<open>The state right after construction: \<open>reset()\<close> on an object that has emitted nothing.\<close>

definition new_game_state :: game_state_manager where
  "new_game_state = reset \<lparr>score = 0, health = 100, energy = 100, level = 1, emitted = []\<rparr>"

section \<open>Double-precision numbers\<close>

text \<open>
  The coordinate conversions compute in IEEE 754 double precision, and what their round trip
  returns depends on the rounding, so here a number is a double.  A finite one is given by its
  value, so that \<open>Num x\<close> stands for a number of the program if \<open>x\<close> is the value of a double,
  as the values of the literals 2 and 2.5 and of the whole numbers below \<open>2\<^sup>5\<^sup>3\<close> are.  The two
  zeros are not told apart, since they differ only as a divisor and the divisors of the code
  modelled here are the constants 2.5 and 2.
\<close>

datatype number = Num real | PosInf | NegInf | NaN

text \<open>The position of the leading binary digit of a positive whole number.\<close>

function ilog2 :: "int \<Rightarrow> int" where
  "ilog2 n = (if n \<le> 1 then 0 else 1 + ilog2 (n div 2))"
  by pat_completeness auto

termination ilog2
  by (relation "measure nat") auto

declare ilog2.simps [simp del]

text \<open>
  The binary exponent of the interval of doubles in which \<open>x\<close> lies, the subnormal numbers
  sharing the least exponent, and the distance between neighbouring doubles there.
\<close>

definition exponent :: "real \<Rightarrow> int" where
  "exponent x = max (ilog2 \<lfloor>\<bar>x\<bar> * 2 ^ 1074\<rfloor> - 1074) (- 1022)"

definition ulp :: "real \<Rightarrow> real" where
  "ulp x = 2 powi (exponent x - 52)"

text \<open>Rounding to the nearest whole number, a tie going to the even one.\<close>

definition round_even :: "real \<Rightarrow> int" where
  "round_even q =
     (let f = \<lfloor>q\<rfloor>; r = q - of_int f in
      if r < 1 / 2 then f else if 1 / 2 < r then f + 1 else if even f then f else f + 1)"

text \<open>
  The double that stands for the exact result \<open>x\<close> of an operation: the nearest one, or an
  infinity past the largest finite double.
\<close>

definition to_double :: "real \<Rightarrow> number" where
  "to_double x =
     (let r = of_int (round_even (x / ulp x)) * ulp x in
      if 2 ^ 1024 \<le> r then PosInf else if r \<le> - (2 ^ 1024) then NegInf else Num r)"

fun js_neg :: "number \<Rightarrow> number" where
  "js_neg (Num a) = Num (- a)"
| "js_neg PosInf = NegInf"
| "js_neg NegInf = PosInf"
| "js_neg NaN = NaN"

fun js_add :: "number \<Rightarrow> number \<Rightarrow> number" where
  "js_add (Num a) (Num b) = to_double (a + b)"
| "js_add NaN y = NaN"
| "js_add x NaN = NaN"
| "js_add PosInf NegInf = NaN"
| "js_add NegInf PosInf = NaN"
| "js_add PosInf y = PosInf"
| "js_add NegInf y = NegInf"
| "js_add (Num a) y = y"

definition js_sub :: "number \<Rightarrow> number \<Rightarrow> number" where
  "js_sub x y = js_add x (js_neg y)"

fun js_mul :: "number \<Rightarrow> number \<Rightarrow> number" where
  "js_mul (Num a) (Num b) = to_double (a * b)"
| "js_mul NaN y = NaN"
| "js_mul x NaN = NaN"
| "js_mul (Num a) y = (if a = 0 then NaN else if 0 < a then y else js_neg y)"
| "js_mul x (Num b) = (if b = 0 then NaN else if 0 < b then x else js_neg x)"
| "js_mul PosInf y = y"
| "js_mul NegInf y = js_neg y"

fun js_div :: "number \<Rightarrow> number \<Rightarrow> number" where
  "js_div (Num a) (Num b) =
     (if b = 0 then (if a = 0 then NaN else if 0 < a then PosInf else NegInf)
      else to_double (a / b))"
| "js_div NaN y = NaN"
| "js_div x NaN = NaN"
| "js_div (Num a) y = Num 0"
| "js_div x (Num b) = (if 0 \<le> b then x else js_neg x)"
| "js_div PosInf y = NaN"
| "js_div NegInf y = NaN"

text \<open>\<open>Math.floor\<close>: the floor of a finite double is again a double.\<close>

fun js_floor :: "number \<Rightarrow> number" where
  "js_floor (Num a) = Num (of_int \<lfloor>a\<rfloor>)"
| "js_floor x = x"

section \<open>Grid and world coordinates (src/game/nexusMazeGame.js)\<close>

text \<open>
  \<open>msize\<close> is \<open>this.state.currentMazeSize\<close>; the results are the fields \<open>x\<close> and \<open>z\<close> of the
  object returned.
\<close>

definition CELL_SIZE :: number where
  "CELL_SIZE = Num 2.5"

definition worldToGrid :: "number \<Rightarrow> number \<Rightarrow> number \<Rightarrow> number \<times> number" where
  "worldToGrid msize wx wz =
     (let cs = CELL_SIZE in
      (js_floor (js_add (js_div wx cs) (js_div msize (Num 2))),
       js_floor (js_add (js_div wz cs) (js_div msize (Num 2)))))"

definition gridToWorld :: "number \<Rightarrow> number \<Rightarrow> number \<Rightarrow> number \<times> number" where
  "gridToWorld msize gx gz =
     (let cs = CELL_SIZE in
      (js_add (js_mul (js_sub gx (js_div msize (Num 2))) cs) (js_div cs (Num 2)),
       js_add (js_mul (js_sub gz (js_div msize (Num 2))) cs) (js_div cs (Num 2))))"

definition js_set_add :: "'a \<Rightarrow> 'a list \<Rightarrow> 'a list" where
  "js_set_add x xs = (if x \<in> set xs then xs else xs @ [x])"

definition js_set_delete :: "'a \<Rightarrow> 'a list \<Rightarrow> 'a list" where
  "js_set_delete x xs = removeAll x xs"

definition digit_char :: "nat \<Rightarrow> char" where
  "digit_char d = char_of (48 + d)"

fun digits :: "nat \<Rightarrow> string" where
  "digits n = (if n < 10 then [digit_char n] else digits (n div 10) @ [digit_char (n mod 10)])"

declare digits.simps [simp del]

fun join_comma :: "string list \<Rightarrow> string" where
  "join_comma [] = []"
| "join_comma [x] = x"
| "join_comma (x # y # ys) = x @ CHR '','' # join_comma (y # ys)"

fun split_comma :: "string \<Rightarrow> string list" where
  "split_comma [] = [[]]"
| "split_comma (c # cs) =
     (if c = CHR '','' then [] # split_comma cs
      else (case split_comma cs of [] \<Rightarrow> [[c]] | w # ws \<Rightarrow> (c # w) # ws))"

record 'v ecs =
  entities :: "nat list"
  nextEntityId :: nat
  componentRegistry :: "(string \<times> (nat \<rightharpoonup> 'v)) list"
  queryCache :: "(string \<times> nat list) list"

definition new_ecs :: "'v ecs" where
  "new_ecs = \<lparr>entities = [], nextEntityId = 1, componentRegistry = [], queryCache = []\<rparr>"

definition addEntity :: "'v ecs \<Rightarrow> nat \<times> 'v ecs" where
  "addEntity s =
     (let eid = nextEntityId s in
      (eid, s\<lparr>nextEntityId := eid + 1, entities := js_set_add eid (entities s)\<rparr>))"

definition component_has :: "'v ecs \<Rightarrow> string \<Rightarrow> nat \<Rightarrow> bool" where
  "component_has s name eid =
     (case map_of (componentRegistry s) name of None \<Rightarrow> False | Some data \<Rightarrow> data eid \<noteq> None)"

definition component_get :: "'v ecs \<Rightarrow> string \<Rightarrow> nat \<Rightarrow> 'v option" where
  "component_get s name eid =
     (case map_of (componentRegistry s) name of None \<Rightarrow> None | Some data \<Rightarrow> data eid)"

definition removeEntity :: "nat \<Rightarrow> 'v ecs \<Rightarrow> 'v ecs" where
  "removeEntity eid s =
     (if eid \<notin> set (entities s) then s
      else s\<lparr>entities := js_set_delete eid (entities s),
             queryCache := map (\<lambda>(queryKey, cache). (queryKey, js_set_delete eid cache)) (queryCache s),
             componentRegistry := map (\<lambda>(name, data). (name, data(eid := None))) (componentRegistry s)\<rparr>)"

definition componentName :: "nat \<Rightarrow> string" where
  "componentName n = CHR ''c'' # digits n"

definition updateCaches :: "nat \<Rightarrow> string \<Rightarrow> 'v ecs \<Rightarrow> 'v ecs" where
  "updateCaches eid cname s =
     s\<lparr>queryCache := map (\<lambda>(queryKey, cache).
          (let componentsInQuery = split_comma queryKey in
           if cname \<notin> set componentsInQuery then (queryKey, cache)
           else if list_all (\<lambda>name. component_has s name eid) componentsInQuery
                then (queryKey, js_set_add eid cache)
                else (queryKey, js_set_delete eid cache))) (queryCache s)\<rparr>"

definition defineComponent :: "'v ecs \<Rightarrow> string \<times> 'v ecs" where
  "defineComponent s =
     (let cname = componentName (length (componentRegistry s)) in
      (cname, s\<lparr>componentRegistry := AList.update cname Map.empty (componentRegistry s)\<rparr>))"

definition component_add :: "string \<Rightarrow> nat \<Rightarrow> 'v \<Rightarrow> 'v ecs \<Rightarrow> 'v ecs" where
  "component_add cname eid v s =
     updateCaches eid cname
       (s\<lparr>componentRegistry := AList.map_entry cname (\<lambda>data. data(eid \<mapsto> v)) (componentRegistry s)\<rparr>)"

definition component_remove :: "string \<Rightarrow> nat \<Rightarrow> 'v ecs \<Rightarrow> 'v ecs" where
  "component_remove cname eid s =
     (if component_has s cname eid
      then updateCaches eid cname
             (s\<lparr>componentRegistry := AList.map_entry cname (\<lambda>data. data(eid := None)) (componentRegistry s)\<rparr>)
      else s)"

definition queryKeyOf :: "string list \<Rightarrow> string" where
  "queryKeyOf components = join_comma (sort components)"

definition bruteForce :: "'v ecs \<Rightarrow> string list \<Rightarrow> nat list" where
  "bruteForce s components =
     filter (\<lambda>eid. list_all (\<lambda>c. component_has s c eid) components) (entities s)"

definition defineQuery :: "string list \<Rightarrow> 'v ecs \<Rightarrow> 'v ecs" where
  "defineQuery components s =
     (let queryKey = queryKeyOf components in
      if map_of (queryCache s) queryKey = None
      then s\<lparr>queryCache := queryCache s @ [(queryKey, bruteForce s components)]\<rparr>
      else s)"

definition resolve :: "string list \<Rightarrow> 'v ecs \<Rightarrow> nat list option" where
  "resolve components s = map_of (queryCache s) (queryKeyOf components)"

datatype 'v ecs_op =
    AddEntity
  | RemoveEntity nat
  | DefineComponent
  | AddComponent string nat 'v
  | RemoveComponent string nat
  | DefineQuery "string list"

fun apply_op :: "'v ecs_op \<Rightarrow> 'v ecs \<Rightarrow> 'v ecs" where
  "apply_op AddEntity s = snd (addEntity s)"
| "apply_op (RemoveEntity eid) s = removeEntity eid s"
| "apply_op DefineComponent s = snd (defineComponent s)"
| "apply_op (AddComponent c eid v) s = component_add c eid v s"
| "apply_op (RemoveComponent c eid) s = component_remove c eid s"
| "apply_op (DefineQuery cs) s = defineQuery cs s"

definition registered :: "'v ecs \<Rightarrow> string set" where
  "registered s = fst ` set (componentRegistry s)"

fun op_ok :: "'v ecs \<Rightarrow> 'v ecs_op \<Rightarrow> bool" where
  "op_ok s (AddComponent c eid v) = (c \<in> registered s \<and> eid \<in> set (entities s))"
| "op_ok s (RemoveComponent c eid) = (c \<in> registered s)"
| "op_ok s (DefineQuery cs) = (set cs \<subseteq> registered s)"
| "op_ok s _ = True"

fun valid_ops :: "'v ecs \<Rightarrow> 'v ecs_op list \<Rightarrow> bool" where
  "valid_ops s [] = True"
| "valid_ops s (x # xs) = (op_ok s x \<and> valid_ops (apply_op x s) xs)"

definition run_ops :: "'v ecs_op list \<Rightarrow> 'v ecs \<Rightarrow> 'v ecs" where
  "run_ops xs s = fold apply_op xs s"

section \<open>The game object (src/game/nexusMazeGame.js)\<close>

text \<open>
  Component payloads.  The store is untyped in the source; the model gives each payload
  shape that the modelled systems read a constructor: a payload without fields (\<open>{}\<close>),
  the three coordinates of Position and Velocity, the record of an EffectTimer
  (\<open>{target, component, expiration}\<close>), the \<open>{value}\<close> of a ScoreMultiplierEffect, and
  any other payload.
\<close>

datatype compval =
    Tag
  | Vec3 real real real
  | EffectTimerV nat string real
  | ScoreMultiplierV real
  | Other

datatype error = TypeError

datatype phase = Loading | Playing | Transitioning | GameOver | GameWon

datatype scheduled = CreateLevel | JumpCooldown

record components =
  Position :: string
  Velocity :: string
  ThreeJSObject :: string
  Player :: string
  Wall :: string
  Collectible :: string
  Goal :: string
  Particle :: string
  Trail :: string
  Animation :: string
  Enemy :: string
  PowerUp :: string
  MovingWall :: string
  Health :: string
  AI :: string
  Effect :: string
  Timer :: string
  EffectTimer :: string
  SpeedBoost :: string
  InvulnerabilityShield :: string
  ScoreMultiplierEffect :: string

text \<open>
  The part of the game object that the modelled systems read and write: the store, the
  component handles, the state manager, the phase \<open>this.state.gameState\<close>, the screen
  shake, the callbacks handed to \<open>setTimeout\<close> with their delays, the audio cues played,
  and whether \<open>requestAnimationFrame\<close> has a frame pending.
\<close>

record game =
  world :: "compval ecs"
  comps :: components
  gameState :: game_state_manager
  state_gameState :: phase
  screenShake :: real
  timeouts :: "(real \<times> scheduled) list"
  played :: "string list"
  frameRequested :: bool

definition ENEMY_CONTACT_RADIUS :: real where "ENEMY_CONTACT_RADIUS = 1.0"
definition ENEMY_CONTACT_DAMAGE :: real where "ENEMY_CONTACT_DAMAGE = 20"
definition ENEMY_KNOCKBACK_FORCE :: real where "ENEMY_KNOCKBACK_FORCE = 15.0"
definition POST_DAMAGE_IFRAMES_MS :: real where "POST_DAMAGE_IFRAMES_MS = 2000"
definition GOAL_ACTIVATION_RADIUS :: real where "GOAL_ACTIVATION_RADIUS = 2.0"
definition LEVEL_UP_HEAL_AMOUNT :: real where "LEVEL_UP_HEAL_AMOUNT = 25"
definition VICTORY_LEVEL :: real where "VICTORY_LEVEL = 20"
definition INITIAL_MAZE_SIZE :: real where "INITIAL_MAZE_SIZE = 31"

text \<open>The component lists of \<open>this.queries\<close>, in the order of \<open>#defineQueries\<close>.\<close>

definition q_player :: "components \<Rightarrow> string list" where
  "q_player h = [Player h, Position h, Velocity h]"
definition q_moving :: "components \<Rightarrow> string list" where
  "q_moving h = [Position h, Velocity h]"
definition q_collectibles :: "components \<Rightarrow> string list" where
  "q_collectibles h = [Collectible h, Position h]"
definition q_goals :: "components \<Rightarrow> string list" where
  "q_goals h = [Goal h, Position h]"
definition q_enemies :: "components \<Rightarrow> string list" where
  "q_enemies h = [Enemy h, Position h, Velocity h]"
definition q_powerUps :: "components \<Rightarrow> string list" where
  "q_powerUps h = [PowerUp h, Position h]"
definition q_particles :: "components \<Rightarrow> string list" where
  "q_particles h = [Particle h, Position h, Velocity h]"
definition q_timers :: "components \<Rightarrow> string list" where
  "q_timers h = [EffectTimer h]"
definition q_enemyAI :: "components \<Rightarrow> string list" where
  "q_enemyAI h = [AI h]"
definition q_trails :: "components \<Rightarrow> string list" where
  "q_trails h = [Trail h, ThreeJSObject h]"
definition q_animated :: "components \<Rightarrow> string list" where
  "q_animated h = [Position h, Animation h, ThreeJSObject h]"
definition q_rendered :: "components \<Rightarrow> string list" where
  "q_rendered h = [Position h, ThreeJSObject h]"

text \<open>
  The constructor calls \<open>#defineComponents\<close>, twenty-one calls of \<open>defineComponent\<close>
  whose results become the handles, and then \<open>#defineQueries\<close>.  On a new store the
  calls return the names \<open>c0\<close> to \<open>c20\<close> in this order.
\<close>

definition game_components :: components where
  "game_components =
     \<lparr>Position = ''c0'', Velocity = ''c1'', ThreeJSObject = ''c2'', Player = ''c3'',
      Wall = ''c4'', Collectible = ''c5'', Goal = ''c6'', Particle = ''c7'', Trail = ''c8'',
      Animation = ''c9'', Enemy = ''c10'', PowerUp = ''c11'', MovingWall = ''c12'',
      Health = ''c13'', AI = ''c14'', Effect = ''c15'', Timer = ''c16'', EffectTimer = ''c17'',
      SpeedBoost = ''c18'', InvulnerabilityShield = ''c19'', ScoreMultiplierEffect = ''c20''\<rparr>"

definition setup_ops :: "'v ecs_op list" where
  "setup_ops =
     replicate 21 DefineComponent @
     map DefineQuery
       [q_player game_components, q_moving game_components, q_collectibles game_components,
        q_goals game_components, q_enemies game_components, q_powerUps game_components,
        q_particles game_components, q_timers game_components, q_enemyAI game_components,
        q_trails game_components, q_animated game_components, q_rendered game_components]"

text \<open>
  Assigning to a field of a payload object (\<open>playerVel.x += \<dots>\<close>) changes the stored
  payload in place and does not go through \<open>add\<close>, so no cache is touched.
\<close>

definition component_mutate :: "string \<Rightarrow> nat \<Rightarrow> ('v \<Rightarrow> 'v) \<Rightarrow> 'v ecs \<Rightarrow> 'v ecs" where
  "component_mutate cname eid f s =
     s\<lparr>componentRegistry :=
         AList.map_entry cname
           (\<lambda>data. case data eid of None \<Rightarrow> data | Some v \<Rightarrow> data(eid \<mapsto> f v))
           (componentRegistry s)\<rparr>"

definition entityExists :: "'v ecs \<Rightarrow> nat \<Rightarrow> bool" where
  "entityExists s eid = (eid \<in> set (entities s))"

definition hypot :: "real \<Rightarrow> real \<Rightarrow> real" where
  "hypot a b = sqrt (a\<^sup>2 + b\<^sup>2)"

subsection \<open>Enemy contact damage (in \<open>#collisionSystem\<close>)\<close>

fun add_xz :: "real \<Rightarrow> real \<Rightarrow> compval \<Rightarrow> compval" where
  "add_xz dx dz (Vec3 x y z) = Vec3 (x + dx) y (z + dz)"
| "add_xz dx dz v = v"

text \<open>The separating normal: \<open>dist = Math.hypot(knockX, knockZ) || 1\<close>.\<close>

definition contact_normal :: "real \<Rightarrow> real \<Rightarrow> real \<Rightarrow> real \<Rightarrow> real \<times> real" where
  "contact_normal px pz ex ez =
     (let knockX = px - ex; knockZ = pz - ez;
          dist = (if hypot knockX knockZ = 0 then 1 else hypot knockX knockZ)
      in (knockX / dist, knockZ / dist))"

text \<open>What is added to the player's velocity and what is added to the enemy's.\<close>

definition player_knockback :: "real \<Rightarrow> real \<Rightarrow> real \<Rightarrow> real \<Rightarrow> real \<times> real" where
  "player_knockback px pz ex ez =
     (let (normX, normZ) = contact_normal px pz ex ez
      in (normX * ENEMY_KNOCKBACK_FORCE, normZ * ENEMY_KNOCKBACK_FORCE))"

definition enemy_knockback :: "real \<Rightarrow> real \<Rightarrow> real \<Rightarrow> real \<Rightarrow> real \<times> real" where
  "enemy_knockback px pz ex ez =
     (let (normX, normZ) = contact_normal px pz ex ez
      in (- (normX * ENEMY_KNOCKBACK_FORCE * 0.5), - (normZ * ENEMY_KNOCKBACK_FORCE * 0.5)))"

text \<open>
  The body of the contact branch for enemy \<open>eid\<close>, up to its \<open>break\<close>.  The damage flash,
  the particle burst and the end-screen texts are presentation and are left out.
\<close>

definition contactDamage :: "real \<Rightarrow> nat \<Rightarrow> nat \<Rightarrow> game \<Rightarrow> error + game" where
  "contactDamage now playerEid eid g =
     (case (component_get (world g) (Position (comps g)) playerEid,
            component_get (world g) (Position (comps g)) eid) of
        (Some (Vec3 px py pz), Some (Vec3 ex ey ez)) \<Rightarrow>
          (let g1 = g\<lparr>gameState :=
                       set_health (health (gameState g) - ENEMY_CONTACT_DAMAGE) (gameState g),
                     played := played g @ [''damage''], screenShake := 15\<rparr>
           in if component_get (world g1) (Velocity (comps g1)) playerEid = None
                 \<or> component_get (world g1) (Velocity (comps g1)) eid = None
              then Inl TypeError
              else
                (let (pkx, pkz) = player_knockback px pz ex ez;
                     (ekx, ekz) = enemy_knockback px pz ex ez;
                     w1 = component_mutate (Velocity (comps g1)) playerEid (add_xz pkx pkz) (world g1);
                     w2 = component_mutate (Velocity (comps g1)) eid (add_xz ekx ekz) w1;
                     g2 = g1\<lparr>world := w2\<rparr>;
                     g3 = (if health (gameState g2) \<le> 0
                           then g2\<lparr>state_gameState := GameOver\<rparr> else g2);
                     w3 = component_add (InvulnerabilityShield (comps g3)) playerEid Tag (world g3);
                     (timerEid, w4) = addEntity w3;
                     w5 = component_add (EffectTimer (comps g3)) timerEid
                            (EffectTimerV playerEid (InvulnerabilityShield (comps g3))
                               (now + POST_DAMAGE_IFRAMES_MS)) w4
                 in Inr (g3\<lparr>world := w5\<rparr>)))
      | _ \<Rightarrow> Inl TypeError)"

fun contactLoop :: "real \<Rightarrow> nat \<Rightarrow> nat list \<Rightarrow> game \<Rightarrow> error + game" where
  "contactLoop now playerEid [] g = Inr g"
| "contactLoop now playerEid (eid # rest) g =
     (case (component_get (world g) (Position (comps g)) playerEid,
            component_get (world g) (Position (comps g)) eid) of
        (Some (Vec3 px py pz), Some (Vec3 ex ey ez)) \<Rightarrow>
          if hypot (px - ex) (pz - ez) < ENEMY_CONTACT_RADIUS
          then contactDamage now playerEid eid g
          else contactLoop now playerEid rest g
      | _ \<Rightarrow> Inl TypeError)"

definition enemyContact :: "real \<Rightarrow> nat \<Rightarrow> game \<Rightarrow> error + game" where
  "enemyContact now playerEid g =
     (case resolve (q_enemies (comps g)) (world g) of
        None \<Rightarrow> Inl TypeError
      | Some enemies \<Rightarrow>
          if \<not> component_has (world g) (InvulnerabilityShield (comps g)) playerEid
          then contactLoop now playerEid enemies g
          else Inr g)"

subsection \<open>Goal arrival (in \<open>#collisionSystem\<close>)\<close>

definition goalArrival :: "nat \<Rightarrow> game \<Rightarrow> error + game" where
  "goalArrival playerEid g =
     (case resolve (q_goals (comps g)) (world g) of
        None \<Rightarrow> Inl TypeError
      | Some goals \<Rightarrow>
          if goals \<noteq> [] \<and> state_gameState g = Playing then
            (case (component_get (world g) (Position (comps g)) playerEid,
                   component_get (world g) (Position (comps g)) (hd goals)) of
               (Some (Vec3 px py pz), Some (Vec3 gx gy gz)) \<Rightarrow>
                 if hypot (px - gx) (pz - gz) < GOAL_ACTIVATION_RADIUS then
                   (let multiplier =
                          (case component_get (world g) (ScoreMultiplierEffect (comps g)) playerEid of
                             Some (ScoreMultiplierV v) \<Rightarrow> v | _ \<Rightarrow> 1);
                        scoreAward = 200 * level (gameState g);
                        s1 = addScore scoreAward multiplier (gameState g);
                        s2 = set_level (level s1 + 1) s1;
                        s3 = set_health (health s2 + LEVEL_UP_HEAL_AMOUNT) s2;
                        g1 = g\<lparr>gameState := s3\<rparr>
                    in if level (gameState g1) \<ge> VICTORY_LEVEL
                       then Inr (g1\<lparr>state_gameState := GameWon\<rparr>)
                       else Inr (g1\<lparr>state_gameState := Transitioning,
                                    played := played g1 @ [''levelUp''], screenShake := 12,
                                    timeouts := timeouts g1 @ [(2000, CreateLevel)]\<rparr>))
                 else Inr g
             | _ \<Rightarrow> Inl TypeError)
          else Inr g)"

subsection \<open>Effect-timer expiry (\<open>#effectsSystem\<close>)\<close>

definition expireTimer :: "real \<Rightarrow> nat \<Rightarrow> game \<Rightarrow> error + game" where
  "expireTimer now eid g =
     (case component_get (world g) (EffectTimer (comps g)) eid of
        None \<Rightarrow> Inl TypeError
      | Some (EffectTimerV target component expiration) \<Rightarrow>
          if now > expiration then
            (let w1 = (if entityExists (world g) target
                       then component_remove component target (world g) else world g)
             in Inr (g\<lparr>world := removeEntity eid w1\<rparr>))
          else Inr g
      | Some _ \<Rightarrow> Inr g)"

fun forEach :: "('a \<Rightarrow> 's \<Rightarrow> error + 's) \<Rightarrow> 'a list \<Rightarrow> 's \<Rightarrow> error + 's" where
  "forEach body [] g = Inr g"
| "forEach body (x # xs) g = (case body x g of Inl e \<Rightarrow> Inl e | Inr g' \<Rightarrow> forEach body xs g')"

definition effectsSystem :: "real \<Rightarrow> game \<Rightarrow> error + game" where
  "effectsSystem now g =
     (case resolve (q_timers (comps g)) (world g) of
        None \<Rightarrow> Inl TypeError
      | Some timers \<Rightarrow> forEach (expireTimer now) timers g)"

subsection \<open>The frame loop (\<open>#animate\<close>)\<close>

text \<open>
  \<open>simulation\<close> stands for the six systems that run while the phase is playing and
  \<open>presentation\<close> for the systems that run in every frame; both are parameters, since the
  guard in front of them does not depend on what they do.
\<close>

definition animate :: "(game \<Rightarrow> game) \<Rightarrow> (game \<Rightarrow> game) \<Rightarrow> game \<Rightarrow> game" where
  "animate simulation presentation g =
     (if state_gameState g = GameOver \<or> state_gameState g = GameWon then g
      else
        (let g1 = g\<lparr>frameRequested := True\<rparr>;
             g2 = (if state_gameState g1 = Playing then simulation g1 else g1)
         in presentation g2))"

text \<open>The browser runs the callback of a pending frame request, and nothing otherwise.\<close>

definition frame :: "(game \<Rightarrow> game) \<Rightarrow> (game \<Rightarrow> game) \<Rightarrow> game \<Rightarrow> game" where
  "frame simulation presentation g =
     (if frameRequested g then animate simulation presentation (g\<lparr>frameRequested := False\<rparr>)
      else g)"

section \<open>Maze generation (\<open>#generateMaze\<close> and \<open>#createLevel\<close>)\<close>

text \<open>
  A grid is an array of rows, \<open>maze[y][x]\<close>, with 1 for a wall and 0 for an open cell.  An
  array element that was never written (a hole, or an index past the end) reads as
  \<open>undefined\<close>, which is \<open>None\<close> here.
\<close>

type_synonym grid = "nat option list list"

definition js_get :: "'a option list \<Rightarrow> int \<Rightarrow> 'a option" where
  "js_get xs i = (if 0 \<le> i \<and> nat i < length xs then xs ! nat i else None)"

text \<open>
  An assignment \<open>xs[i] = v\<close>: past the end the array grows and the skipped indices are holes;
  a negative index names a property and leaves the elements alone.
\<close>

definition js_set :: "'a option list \<Rightarrow> int \<Rightarrow> 'a \<Rightarrow> 'a option list" where
  "js_set xs i v =
     (if i < 0 then xs
      else if nat i < length xs then xs[nat i := Some v]
      else xs @ replicate (nat i - length xs) None @ [Some v])"

text \<open>
  \<open>maze[y][x]\<close> and \<open>maze[y][x] = v\<close> for a row \<open>y\<close> that exists.  Where the source reads or
  writes through these inside the carving loop, the row index has passed the bounds test
  against \<open>height\<close> and the grid has \<open>height\<close> rows, so the row is there.
\<close>

definition grid_get :: "grid \<Rightarrow> int \<Rightarrow> int \<Rightarrow> nat option" where
  "grid_get maze x y = (if 0 \<le> y \<and> nat y < length maze then js_get (maze ! nat y) x else None)"

definition grid_set :: "grid \<Rightarrow> int \<Rightarrow> int \<Rightarrow> nat \<Rightarrow> grid" where
  "grid_set maze x y v =
     (if 0 \<le> y \<and> nat y < length maze then maze[nat y := js_set (maze ! nat y) x v] else maze)"

definition directions :: "(int \<times> int) list" where
  "directions = [(0, -2), (2, 0), (0, 2), (-2, 0)]"

text \<open>The uncarved rooms two steps from \<open>cell\<close>, each with the direction that leads to it.\<close>

definition neighbours_of :: "int \<Rightarrow> int \<Rightarrow> grid \<Rightarrow> int \<times> int \<Rightarrow> ((int \<times> int) \<times> (int \<times> int)) list" where
  "neighbours_of width height maze cell =
     filter (\<lambda>((nx, ny), dir).
        nx > 0 \<and> nx < width - 1 \<and> ny > 0 \<and> ny < height - 1 \<and> grid_get maze nx ny = Some 1)
       (map (\<lambda>dir. ((fst cell + fst dir, snd cell + snd dir), dir)) directions)"

text \<open>Opening the chosen room and the wall between it and \<open>cell\<close>.\<close>

definition carve_to :: "grid \<Rightarrow> int \<times> int \<Rightarrow> (int \<times> int) \<times> (int \<times> int) \<Rightarrow> grid" where
  "carve_to maze cell chosen =
     (let m1 = grid_set maze (fst (fst chosen)) (snd (fst chosen)) 0
      in grid_set m1 (fst cell + fst (snd chosen) div 2) (snd cell + snd (snd chosen) div 2) 0)"

text \<open>The number of wall cells, which bounds the work left for the carving loop.\<close>

definition count1 :: "nat option list \<Rightarrow> nat" where
  "count1 row = length (filter (\<lambda>c. c = Some 1) row)"

definition count_walls :: "grid \<Rightarrow> nat" where
  "count_walls maze = sum_list (map count1 maze)"

text \<open>
  \<open>Math.floor(Math.random() * n)\<close>, where \<open>r\<close> is the number that \<open>Math.random()\<close> returned.
\<close>

definition random_floor :: "real \<Rightarrow> int \<Rightarrow> int" where
  "random_floor r n = \<lfloor>r * of_int n\<rfloor>"

text \<open>
  The carving loop.  \<open>rng k\<close> is the result of the \<open>k\<close>-th call of \<open>Math.random()\<close>; the top
  of the stack is the head of the list.  An index outside \<open>neighbours\<close> (possible only for a
  random number outside the unit interval) makes \<open>chosen\<close> undefined, and reading \<open>chosen.y\<close>
  raises.
\<close>

function carve :: "(nat \<Rightarrow> real) \<Rightarrow> nat \<Rightarrow> int \<Rightarrow> int \<Rightarrow> grid \<Rightarrow> (int \<times> int) list
    \<Rightarrow> error + (grid \<times> nat)" where
  "carve rng k width height maze [] = Inr (maze, k)"
| "carve rng k width height maze (cell # rest) =
     (let neighbours = neighbours_of width height maze cell in
      if neighbours \<noteq> [] then
        (let i = random_floor (rng k) (int (length neighbours)) in
         if 0 \<le> i \<and> nat i < length neighbours then
           carve rng (k + 1) width height (carve_to maze cell (neighbours ! nat i))
             (fst (neighbours ! nat i) # cell # rest)
         else Inl TypeError)
      else carve rng k width height maze rest)"
  by pat_completeness auto

lemma count_update:
  "i < length xs \<Longrightarrow>
   length (filter P (xs[i := v])) + (if P (xs ! i) then 1 else 0)
     = length (filter P xs) + (if P v then 1 else 0)"
proof (induction xs arbitrary: i)
  case Nil
  then show ?case by simp
next
  case (Cons x xs)
  show ?case
  proof (cases i)
    case 0
    then show ?thesis by simp
  next
    case (Suc j)
    with Cons.prems have "j < length xs" by simp
    from Cons.IH [OF this] Suc show ?thesis by simp
  qed
qed

lemma sum_update:
  "i < length xs \<Longrightarrow>
   sum_list (map f (xs[i := v])) + f (xs ! i) = sum_list (map f xs) + (f v :: nat)"
proof (induction xs arbitrary: i)
  case Nil
  then show ?case by simp
next
  case (Cons x xs)
  show ?case
  proof (cases i)
    case 0
    then show ?thesis by simp
  next
    case (Suc j)
    with Cons.prems have "j < length xs" by simp
    from Cons.IH [OF this] Suc show ?thesis by simp
  qed
qed

lemma count1_js_set_le: "count1 (js_set row i 0) \<le> count1 row"
proof (cases "0 \<le> i \<and> nat i < length row")
  case True
  then have "count1 (row[nat i := Some 0]) + (if row ! nat i = Some 1 then 1 else 0) = count1 row"
    using count_update [of "nat i" row "\<lambda>c. c = Some 1" "Some 0"] by (simp add: count1_def)
  with True show ?thesis by (simp add: js_set_def split: if_splits)
next
  case False
  then show ?thesis by (auto simp: js_set_def count1_def)
qed

lemma count1_js_set_less: "js_get row i = Some 1 \<Longrightarrow> count1 (js_set row i 0) < count1 row"
proof -
  assume a: "js_get row i = Some 1"
  then have r: "0 \<le> i" "nat i < length row" "row ! nat i = Some 1"
    by (auto simp: js_get_def split: if_splits)
  then have "count1 (row[nat i := Some 0]) + 1 = count1 row"
    using count_update [of "nat i" row "\<lambda>c. c = Some 1" "Some 0"] by (simp add: count1_def)
  with r show ?thesis by (simp add: js_set_def)
qed

lemma count_walls_alt: "count_walls maze = sum_list (map count1 maze)"
  by (simp add: count_walls_def)

lemma count_walls_grid_set_le: "count_walls (grid_set maze x y 0) \<le> count_walls maze"
proof (cases "0 \<le> y \<and> nat y < length maze")
  case True
  then have "count_walls (grid_set maze x y 0) + count1 (maze ! nat y)
      = count_walls maze + count1 (js_set (maze ! nat y) x 0)"
    using sum_update [of "nat y" maze count1] by (simp add: grid_set_def count_walls_alt)
  then show ?thesis using count1_js_set_le [of "maze ! nat y" x] by linarith
next
  case False
  then show ?thesis by (auto simp: grid_set_def)
qed

lemma count_walls_grid_set_less:
  assumes "grid_get maze x y = Some 1"
  shows "count_walls (grid_set maze x y 0) < count_walls maze"
proof -
  from assms have r: "0 \<le> y" "nat y < length maze" "js_get (maze ! nat y) x = Some 1"
    by (auto simp: grid_get_def split: if_splits)
  then have "count_walls (grid_set maze x y 0) + count1 (maze ! nat y)
      = count_walls maze + count1 (js_set (maze ! nat y) x 0)"
    using sum_update [of "nat y" maze count1] by (simp add: grid_set_def count_walls_alt)
  then show ?thesis using count1_js_set_less [OF r(3)] by linarith
qed

lemma count_walls_carve_to:
  assumes "grid_get maze (fst (fst chosen)) (snd (fst chosen)) = Some 1"
  shows "count_walls (carve_to maze cell chosen) < count_walls maze"
proof -
  have "count_walls (carve_to maze cell chosen)
      \<le> count_walls (grid_set maze (fst (fst chosen)) (snd (fst chosen)) 0)"
    unfolding carve_to_def Let_def by (rule count_walls_grid_set_le)
  also have "\<dots> < count_walls maze" using assms by (rule count_walls_grid_set_less)
  finally show ?thesis .
qed

lemma neighbours_of_wall:
  "c \<in> set (neighbours_of width height maze cell) \<Longrightarrow>
   grid_get maze (fst (fst c)) (snd (fst c)) = Some 1"
  by (auto simp: neighbours_of_def)

termination carve
proof (relation "measure (\<lambda>(rng, k, width, height, maze, stack). 2 * count_walls maze + length stack)")
  show "wf (measure (\<lambda>(rng, k, width, height, maze, stack). 2 * count_walls maze + length stack))"
    by simp
next
  fix rng :: "nat \<Rightarrow> real" and k :: nat and width height :: int and maze :: grid
    and cell :: "int \<times> int" and rest :: "(int \<times> int) list" and x xa
  assume x: "x = neighbours_of width height maze cell" and "x \<noteq> []"
    and xa: "xa = random_floor (rng k) (int (length x))" and i: "0 \<le> xa \<and> nat xa < length x"
  from i have "x ! nat xa \<in> set x" by simp
  then have "grid_get maze (fst (fst (x ! nat xa))) (snd (fst (x ! nat xa))) = Some 1"
    unfolding x by (rule neighbours_of_wall)
  then have "count_walls (carve_to maze cell (x ! nat xa)) < count_walls maze"
    by (rule count_walls_carve_to)
  then show "((rng, k + 1, width, height, carve_to maze cell (x ! nat xa), fst (x ! nat xa) # cell # rest),
       rng, k, width, height, maze, cell # rest)
      \<in> measure (\<lambda>(rng, k, width, height, maze, stack). 2 * count_walls maze + length stack)"
    by simp
next
  fix rng :: "nat \<Rightarrow> real" and k :: nat and width height :: int and maze :: grid
    and cell :: "int \<times> int" and rest :: "(int \<times> int) list" and x
  show "((rng, k, width, height, maze, rest), rng, k, width, height, maze, cell # rest)
      \<in> measure (\<lambda>(rng, k, width, height, maze, stack). 2 * count_walls maze + length stack)"
    by simp
qed

text \<open>The remainder operator \<open>%\<close> of JavaScript takes the sign of the dividend.\<close>

definition js_rem :: "int \<Rightarrow> int \<Rightarrow> int" where
  "js_rem a b = (if 0 \<le> a then a mod b else - ((- a) mod b))"

text \<open>\<open>maze[y][x] = v\<close> where the row may be missing: then \<open>maze[y]\<close> is undefined and the
  assignment raises.\<close>

definition write_cell :: "grid \<Rightarrow> int \<Rightarrow> int \<Rightarrow> nat \<Rightarrow> error + grid" where
  "write_cell maze x y v =
     (if 0 \<le> y \<and> nat y < length maze then Inr (grid_set maze x y v) else Inl TypeError)"

text \<open>One iteration of the loop that punches the extra openings.\<close>

definition punch_step :: "(nat \<Rightarrow> real) \<Rightarrow> nat \<Rightarrow> int \<Rightarrow> int \<Rightarrow> grid \<Rightarrow> error + grid" where
  "punch_step rng k width height maze =
     (let x = 2 + random_floor (rng k) (width - 4);
          y = 2 + random_floor (rng (k + 1)) (height - 4)
      in case (if js_rem x 2 = 0 \<and> js_rem y 2 = 1 then write_cell maze x y 0 else Inr maze) of
           Inl e \<Rightarrow> Inl e
         | Inr m1 \<Rightarrow> (if js_rem x 2 = 1 \<and> js_rem y 2 = 0 then write_cell m1 x y 0 else Inr m1))"

text \<open>The loop itself, with \<open>n\<close> iterations left.\<close>

fun punch :: "(nat \<Rightarrow> real) \<Rightarrow> nat \<Rightarrow> int \<Rightarrow> int \<Rightarrow> nat \<Rightarrow> grid \<Rightarrow> error + grid" where
  "punch rng k width height 0 maze = Inr maze"
| "punch rng k width height (Suc n) maze =
     (case punch_step rng k width height maze of
        Inl e \<Rightarrow> Inl e
      | Inr m \<Rightarrow> punch rng (k + 2) width height n m)"

text \<open>The grid filled with walls, with the start room opened: the state before the loop.\<close>

definition initial_maze :: "nat \<Rightarrow> nat \<Rightarrow> grid" where
  "initial_maze width height = grid_set (replicate height (replicate width (Some 1))) 1 1 0"

text \<open>The perfect maze, before the extra openings.\<close>

definition carved_maze :: "(nat \<Rightarrow> real) \<Rightarrow> nat \<Rightarrow> nat \<Rightarrow> error + (grid \<times> nat)" where
  "carved_maze rng width height =
     (if height \<le> 1 then Inl TypeError
      else carve rng 0 (int width) (int height) (initial_maze width height) [(1, 1)])"

definition generateMaze :: "(nat \<Rightarrow> real) \<Rightarrow> nat \<Rightarrow> nat \<Rightarrow> error + grid" where
  "generateMaze rng width height =
     (case carved_maze rng width height of
        Inl e \<Rightarrow> Inl e
      | Inr (maze, k) \<Rightarrow>
          punch rng k (int width) (int height) (nat \<lfloor>real width * real height * 0.003\<rfloor>) maze)"

text \<open>The size that \<open>#createLevel\<close> requests for both dimensions.\<close>

definition mazeSize :: "real \<Rightarrow> real" where
  "mazeSize lvl = min (31 + of_int \<lfloor>lvl / 2\<rfloor> * 4) 71"

section \<open>Path finding (\<open>findPath\<close>)\<close>

text \<open>
  A node is a grid cell \<open>{x, z}\<close>.  The source keys its sets and maps by the string
  \<open>x,z\<close>, which identifies the cell, so the model keys them by the cell itself.
\<close>

type_synonym cell = "int \<times> int"

record astar =
  openList :: "cell list"
  closed :: "cell set"
  cameFrom :: "cell \<rightharpoonup> cell"
  gScore :: "cell \<rightharpoonup> int"
  fScore :: "cell \<rightharpoonup> int"

definition heuristic :: "cell \<Rightarrow> cell \<Rightarrow> int" where
  "heuristic a b = \<bar>fst a - fst b\<bar> + \<bar>snd a - snd b\<bar>"

text \<open>
  Reading a score.  Both scores of a node are set before the node is pushed on the open
  list, so for the nodes the loop reads the score is there; a missing one reads as 0 here.
\<close>

definition score_of :: "(cell \<rightharpoonup> int) \<Rightarrow> cell \<Rightarrow> int" where
  "score_of m c = (case m c of None \<Rightarrow> 0 | Some v \<Rightarrow> v)"

definition neighbours :: "cell \<Rightarrow> cell list" where
  "neighbours current =
     [(fst current, snd current - 1), (fst current, snd current + 1),
      (fst current - 1, snd current), (fst current + 1, snd current)]"

text \<open>The test that lets a neighbour through: inside the grid and not a wall.\<close>

definition passable :: "grid \<Rightarrow> cell \<Rightarrow> bool" where
  "passable maze nb =
     (\<not> (snd nb < 0 \<or> snd nb \<ge> int (length maze) \<or> fst nb < 0
         \<or> fst nb \<ge> int (length (maze ! 0)) \<or> grid_get maze (fst nb) (snd nb) = Some 1))"

text \<open>The body of the loop over the neighbours of \<open>current\<close>.\<close>

definition relax :: "grid \<Rightarrow> cell \<Rightarrow> cell \<Rightarrow> cell \<Rightarrow> astar \<Rightarrow> astar" where
  "relax maze goal current nb st =
     (if \<not> passable maze nb then st
      else if nb \<in> closed st then st
      else
        (let tentativeG = score_of (gScore st) current + 1 in
         if gScore st nb = None \<or> tentativeG < score_of (gScore st) nb then
           st\<lparr>cameFrom := (cameFrom st)(nb \<mapsto> current),
              gScore := (gScore st)(nb \<mapsto> tentativeG),
              fScore := (fScore st)(nb \<mapsto> tentativeG + heuristic nb goal),
              openList := (if nb \<in> set (openList st) then openList st else openList st @ [nb])\<rparr>
         else st))"

text \<open>Walking back along \<open>cameFrom\<close>, putting each node in front of the path.\<close>

partial_function (option) reconstruct :: "(cell \<rightharpoonup> cell) \<Rightarrow> cell \<Rightarrow> cell list \<Rightarrow> cell list option" where
  "reconstruct cf node path =
     (case cf node of None \<Rightarrow> Some (node # path) | Some prev \<Rightarrow> reconstruct cf prev (node # path))"

declare reconstruct.simps [code]

text \<open>
  The main loop.  The result \<open>None\<close> stands for a loop that does not end, \<open>Some None\<close> for
  the return value \<open>null\<close> and \<open>Some (Some path)\<close> for a returned path.  The comparator
  sorts stably by the f-score, as \<open>sort_key\<close> does; \<open>current\<close> is the first node of the
  sorted list.
\<close>

definition current_of :: "astar \<Rightarrow> cell" where
  "current_of st = hd (sort_key (score_of (fScore st)) (openList st))"

text \<open>\<open>open.shift()\<close> on the sorted list, and \<open>closed.add(key(current))\<close>.\<close>

definition pop_state :: "astar \<Rightarrow> astar" where
  "pop_state st =
     st\<lparr>openList := tl (sort_key (score_of (fScore st)) (openList st)),
        closed := insert (current_of st) (closed st)\<rparr>"

text \<open>One iteration that does not return: the pop and the loop over the four neighbours.\<close>

definition astar_body :: "grid \<Rightarrow> cell \<Rightarrow> astar \<Rightarrow> astar" where
  "astar_body maze goal st =
     fold (relax maze goal (current_of st)) (neighbours (current_of st)) (pop_state st)"

partial_function (option) astar_loop :: "grid \<Rightarrow> cell \<Rightarrow> astar \<Rightarrow> cell list option option" where
  "astar_loop maze goal st =
     (if openList st = [] then Some None
      else if current_of st = goal then map_option Some (reconstruct (cameFrom st) goal [])
      else astar_loop maze goal (astar_body maze goal st))"

declare astar_loop.simps [code]

definition initial_state :: "cell \<Rightarrow> cell \<Rightarrow> astar" where
  "initial_state start goal =
     \<lparr>openList = [start], closed = {}, cameFrom = Map.empty,
      gScore = [start \<mapsto> 0], fScore = [start \<mapsto> heuristic start goal]\<rparr>"

definition findPath :: "grid \<Rightarrow> cell \<Rightarrow> cell \<Rightarrow> cell list option option" where
  "findPath maze start goal = astar_loop maze goal (initial_state start goal)"

section \<open>Properties of the state manager\<close>

text \<open>
  C9 (as stated, refuted).  The claim says that all three setters clamp and that each
  assignment emits a change event.  Assigning \<open>-5\<close> to the score stores \<open>-5\<close>, and
  assigning \<open>150\<close> to a health of \<open>100\<close> emits no event.
\<close>

theorem setters_not_uniform_counterexample:
  "score (set_score (-5) new_game_state) = -5 \<and>
   emitted (set_health 150 new_game_state) = []"
  by (simp add: set_score_def set_health_def emit_def new_game_state_def reset_def)

text \<open>
  C9 (amended).  The health and energy setters store the value clamped to the range from 0
  to 100 and emit their change event exactly when the clamped value differs from the stored
  one; the score setter stores the assigned value as it is and always emits.
\<close>

theorem setters_clamp_and_emit:
  "health (set_health v s) = max 0 (min 100 v) \<and>
   emitted (set_health v s) =
     (if max 0 (min 100 v) = health s then emitted s
      else emitted s @ [(''healthChanged'', max 0 (min 100 v))]) \<and>
   energy (set_energy v s) = max 0 (min 100 v) \<and>
   emitted (set_energy v s) =
     (if max 0 (min 100 v) = energy s then emitted s
      else emitted s @ [(''energyChanged'', max 0 (min 100 v))]) \<and>
   score (set_score v s) = v \<and>
   emitted (set_score v s) = emitted s @ [(''scoreChanged'', v)]"
  by (simp add: set_score_def set_health_def set_energy_def emit_def Let_def)

definition digits_value :: "string \<Rightarrow> nat" where
  "digits_value cs = foldl (\<lambda>a c. 10 * a + (of_char c - 48)) 0 cs"

lemma of_char_digit_char: "d < 10 \<Longrightarrow> of_char (digit_char d) = 48 + d"
  by (simp add: digit_char_def)

lemma digits_value_digits: "digits_value (digits n) = n"
proof (induction n rule: digits.induct)
  case (1 n)
  show ?case
  proof (cases "n < 10")
    case True
    then show ?thesis
      by (subst digits.simps) (simp add: digits_value_def of_char_digit_char)
  next
    case False
    with 1 have ih: "digits_value (digits (n div 10)) = n div 10" by simp
    have "digits_value (digits n) = 10 * digits_value (digits (n div 10)) + n mod 10"
      using False
      by (subst digits.simps) (simp add: digits_value_def of_char_digit_char)
    with ih show ?thesis by simp
  qed
qed

lemma digits_inject: "digits m = digits n \<Longrightarrow> m = n"
  by (metis digits_value_digits)

lemma componentName_inject: "componentName m = componentName n \<longleftrightarrow> m = n"
  by (auto simp: componentName_def dest: digits_inject)

lemma digit_char_not_comma: "d < 10 \<Longrightarrow> digit_char d \<noteq> CHR '',''"
proof
  assume "d < 10" and "digit_char d = CHR '',''"
  then have "of_char (digit_char d) = (of_char (CHR '','') :: nat)" by simp
  with \<open>d < 10\<close> show False by (simp add: of_char_digit_char)
qed

lemma digits_no_comma: "CHR '','' \<notin> set (digits n)"
proof (induction n rule: digits.induct)
  case (1 n)
  show ?case
  proof (cases "n < 10")
    case True
    then show ?thesis
      using digit_char_not_comma [of n] by (subst digits.simps) auto
  next
    case False
    with 1 have "CHR '','' \<notin> set (digits (n div 10))" by simp
    moreover have "digit_char (n mod 10) \<noteq> CHR '',''"
      by (rule digit_char_not_comma) simp
    ultimately show ?thesis
      using False by (subst digits.simps) auto
  qed
qed

lemma componentName_no_comma: "CHR '','' \<notin> set (componentName n)"
  by (simp add: componentName_def digits_no_comma)

lemma componentName_nonempty: "componentName n \<noteq> []"
  by (simp add: componentName_def)

lemma split_comma_nonempty: "split_comma cs \<noteq> []"
  by (induction cs) (auto split: list.splits)

lemma split_comma_plain: "CHR '','' \<notin> set x \<Longrightarrow> split_comma x = [x]"
  by (induction x) auto

lemma split_comma_append:
  "CHR '','' \<notin> set x \<Longrightarrow> split_comma (x @ CHR '','' # rest) = x # split_comma rest"
  by (induction x) auto

lemma split_join_comma:
  "xs \<noteq> [] \<Longrightarrow> \<forall>x\<in>set xs. CHR '','' \<notin> set x \<Longrightarrow> split_comma (join_comma xs) = xs"
proof (induction xs rule: join_comma.induct)
  case 1
  then show ?case by simp
next
  case (2 x)
  then show ?case by (simp add: split_comma_plain)
next
  case (3 x y ys)
  then show ?case by (simp add: split_comma_append)
qed

lemma split_queryKeyOf:
  assumes "cs \<noteq> []" and "\<forall>x\<in>set cs. CHR '','' \<notin> set x"
  shows "split_comma (queryKeyOf cs) = sort cs"
proof -
  have "sort cs \<noteq> []" using assms(1) by (metis length_sort length_0_conv)
  moreover have "\<forall>x\<in>set (sort cs). CHR '','' \<notin> set x" using assms(2) by simp
  ultimately show ?thesis unfolding queryKeyOf_def by (rule split_join_comma)
qed

definition cache_ok :: "'v ecs \<Rightarrow> string \<times> nat list \<Rightarrow> bool" where
  "cache_ok s entry \<longleftrightarrow>
     (fst entry = [] \<or>
      (set (split_comma (fst entry)) \<subseteq> registered s \<and> distinct (snd entry) \<and>
       set (snd entry) =
         {e \<in> set (entities s). \<forall>n\<in>set (split_comma (fst entry)). component_has s n e}))"

definition ecs_inv :: "'v ecs \<Rightarrow> bool" where
  "ecs_inv s \<longleftrightarrow>
     map fst (componentRegistry s) = map componentName [0..<length (componentRegistry s)] \<and>
     distinct (entities s) \<and>
     (\<forall>e\<in>set (entities s). e < nextEntityId s) \<and>
     (\<forall>n e. component_has s n e \<longrightarrow> e \<in> set (entities s)) \<and>
     (\<forall>entry\<in>set (queryCache s). cache_ok s entry)"

lemma component_has_registered: "component_has s n e \<Longrightarrow> n \<in> registered s"
  by (auto simp: component_has_def registered_def split: option.splits dest: map_of_SomeD intro: rev_image_eqI)

lemma registered_no_comma: "ecs_inv s \<Longrightarrow> n \<in> registered s \<Longrightarrow> CHR '','' \<notin> set n"
proof -
  assume "ecs_inv s" and "n \<in> registered s"
  then have "n \<in> set (map componentName [0..<length (componentRegistry s)])"
    unfolding ecs_inv_def registered_def by (metis set_map)
  then show ?thesis by (auto simp: componentName_no_comma)
qed

lemma registered_nonempty: "ecs_inv s \<Longrightarrow> n \<in> registered s \<Longrightarrow> n \<noteq> []"
proof -
  assume "ecs_inv s" and "n \<in> registered s"
  then have "n \<in> set (map componentName [0..<length (componentRegistry s)])"
    unfolding ecs_inv_def registered_def by (metis set_map)
  then show ?thesis by (auto simp: componentName_nonempty)
qed

lemma ecs_inv_new: "ecs_inv new_ecs"
  by (simp add: ecs_inv_def new_ecs_def component_has_def)

subsection \<open>addEntity\<close>

lemma has_addEntity [simp]: "component_has (snd (addEntity s)) = component_has s"
  by (simp add: addEntity_def component_has_def fun_eq_iff Let_def)

lemma registered_addEntity [simp]: "registered (snd (addEntity s)) = registered s"
  by (simp add: addEntity_def registered_def Let_def)

lemma ecs_inv_addEntity:
  assumes "ecs_inv s"
  shows "ecs_inv (snd (addEntity s))"
proof -
  let ?s' = "snd (addEntity s)"
  have fresh: "nextEntityId s \<notin> set (entities s)"
    using assms by (auto simp: ecs_inv_def)
  have ents: "entities ?s' = entities s @ [nextEntityId s]"
    using fresh by (simp add: addEntity_def Let_def js_set_add_def)
  have nohas: "\<not> component_has s n (nextEntityId s)" for n
    using assms fresh by (auto simp: ecs_inv_def)
  have "cache_ok ?s' entry" if "entry \<in> set (queryCache s)" for entry
  proof -
    from that assms have ok: "cache_ok s entry" by (simp add: ecs_inv_def)
    obtain n where "n \<in> set (split_comma (fst entry))"
      using split_comma_nonempty [of "fst entry"] by (cases "split_comma (fst entry)") auto
    then show ?thesis
      using ok nohas unfolding cache_ok_def ents by auto
  qed
  moreover have "queryCache ?s' = queryCache s" "componentRegistry ?s' = componentRegistry s"
    "nextEntityId ?s' = Suc (nextEntityId s)"
    by (simp_all add: addEntity_def Let_def)
  ultimately show ?thesis
    using assms fresh unfolding ecs_inv_def ents by (auto simp: less_Suc_eq)
qed

subsection \<open>removeEntity\<close>

lemma map_of_map_data:
  "map_of (map (\<lambda>(name, data). (name, f data)) al) n = map_option f (map_of al n)"
  by (induction al) auto

lemma has_removeEntity:
  "e \<in> set (entities s) \<Longrightarrow>
   component_has (removeEntity e s) n x \<longleftrightarrow> component_has s n x \<and> x \<noteq> e"
  by (auto simp: removeEntity_def component_has_def map_of_map_data split: option.splits)

lemma registered_removeEntity [simp]: "registered (removeEntity e s) = registered s"
  by (force simp: removeEntity_def registered_def)

lemma ecs_inv_removeEntity:
  assumes "ecs_inv s"
  shows "ecs_inv (removeEntity e s)"
proof (cases "e \<in> set (entities s)")
  case False
  then show ?thesis using assms by (simp add: removeEntity_def)
next
  case True
  let ?s' = "removeEntity e s"
  have ents: "entities ?s' = removeAll e (entities s)"
    using True by (simp add: removeEntity_def js_set_delete_def)
  have qc: "queryCache ?s' = map (\<lambda>(k, c). (k, removeAll e c)) (queryCache s)"
    using True by (simp add: removeEntity_def js_set_delete_def)
  have reg: "map fst (componentRegistry ?s') = map fst (componentRegistry s)"
    using True by (simp add: removeEntity_def case_prod_beta comp_def)
  have next_id: "nextEntityId ?s' = nextEntityId s"
    by (simp add: removeEntity_def)
  have "cache_ok ?s' (k, removeAll e c)" if "(k, c) \<in> set (queryCache s)" for k c
  proof -
    from that assms have "cache_ok s (k, c)" by (auto simp: ecs_inv_def)
    then show ?thesis
      unfolding cache_ok_def ents by (auto simp: has_removeEntity [OF True] distinct_removeAll)
  qed
  then have "\<forall>entry\<in>set (queryCache ?s'). cache_ok ?s' entry"
    unfolding qc by auto
  moreover have "length (componentRegistry ?s') = length (componentRegistry s)"
    using reg by (metis length_map)
  ultimately show ?thesis
    using assms unfolding ecs_inv_def ents reg next_id
    by (auto simp: has_removeEntity [OF True] distinct_removeAll)
qed

subsection \<open>defineComponent\<close>

lemma fresh_name:
  assumes "ecs_inv s"
  shows "componentName (length (componentRegistry s)) \<notin> registered s"
proof
  assume "componentName (length (componentRegistry s)) \<in> registered s"
  then have "componentName (length (componentRegistry s))
      \<in> set (map componentName [0..<length (componentRegistry s)])"
    using assms unfolding ecs_inv_def registered_def by (metis set_map)
  then show False by (auto simp: componentName_inject)
qed

lemma update_fresh: "k \<notin> fst ` set al \<Longrightarrow> AList.update k v al = al @ [(k, v)]"
  by (induction al) auto

lemma has_defineComponent:
  assumes "ecs_inv s"
  shows "component_has (snd (defineComponent s)) = component_has s"
proof -
  have "map_of (componentRegistry s) (componentName (length (componentRegistry s))) = None"
    using fresh_name [OF assms] by (simp add: registered_def map_of_eq_None_iff)
  then show ?thesis
    by (auto simp: defineComponent_def Let_def component_has_def fun_eq_iff update_conv'
        split: option.splits)
qed

lemma ecs_inv_defineComponent:
  assumes "ecs_inv s"
  shows "ecs_inv (snd (defineComponent s))"
proof -
  let ?s' = "snd (defineComponent s)"
  let ?c = "componentName (length (componentRegistry s))"
  have reg: "componentRegistry ?s' = componentRegistry s @ [(?c, Map.empty)]"
    using fresh_name [OF assms]
    by (simp add: defineComponent_def Let_def update_fresh registered_def)
  have same: "entities ?s' = entities s" "queryCache ?s' = queryCache s"
    "nextEntityId ?s' = nextEntityId s"
    by (simp_all add: defineComponent_def Let_def)
  have regd: "registered ?s' = insert ?c (registered s)"
    by (auto simp: registered_def reg)
  have "cache_ok ?s' entry" if "entry \<in> set (queryCache s)" for entry
  proof -
    from that assms have "cache_ok s entry" by (simp add: ecs_inv_def)
    then show ?thesis
      unfolding cache_ok_def has_defineComponent [OF assms] same regd by auto
  qed
  then show ?thesis
    using assms unfolding ecs_inv_def has_defineComponent [OF assms] same
    by (simp add: reg)
qed

subsection \<open>updateCaches\<close>

lemma has_updateCaches [simp]: "component_has (updateCaches e c s) = component_has s"
  by (simp add: updateCaches_def component_has_def fun_eq_iff)

lemma registered_updateCaches [simp]: "registered (updateCaches e c s) = registered s"
  by (simp add: updateCaches_def registered_def)

lemma entities_updateCaches [simp]: "entities (updateCaches e c s) = entities s"
  by (simp add: updateCaches_def)

lemma set_js_set_add [simp]: "set (js_set_add x xs) = insert x (set xs)"
  by (auto simp: js_set_add_def)

lemma distinct_js_set_add [simp]: "distinct (js_set_add x xs) = distinct xs"
  by (auto simp: js_set_add_def)

lemma set_js_set_delete [simp]: "set (js_set_delete x xs) = set xs - {x}"
  by (auto simp: js_set_delete_def)

lemma distinct_js_set_delete [simp]: "distinct xs \<Longrightarrow> distinct (js_set_delete x xs)"
  by (simp add: js_set_delete_def distinct_removeAll)

text \<open>
  The incremental correction is right whenever the component tables of the old and the new
  state differ at most at the pair that was touched.
\<close>

lemma cache_ok_updateCaches:
  assumes old: "cache_ok s0 (k, cache)"
    and same: "\<And>n x. n \<noteq> c \<or> x \<noteq> e \<Longrightarrow> component_has s n x = component_has s0 n x"
    and ents: "entities s = entities s0" and regd: "registered s = registered s0"
    and live: "component_has s c e \<Longrightarrow> e \<in> set (entities s0)"
  shows "cache_ok (updateCaches e c s)
     (let componentsInQuery = split_comma k in
      if c \<notin> set componentsInQuery then (k, cache)
      else if list_all (\<lambda>name. component_has s name e) componentsInQuery
           then (k, js_set_add e cache)
           else (k, js_set_delete e cache))"
proof (cases "k = []")
  case True
  then show ?thesis by (simp add: cache_ok_def Let_def)
next
  case False
  with old have sub: "set (split_comma k) \<subseteq> registered s0" and dist: "distinct cache"
    and eq: "set cache = {x \<in> set (entities s0). \<forall>n\<in>set (split_comma k). component_has s0 n x}"
    by (auto simp: cache_ok_def)
  show ?thesis
  proof (cases "c \<in> set (split_comma k)")
    case notin: False
    have "component_has s n x = component_has s0 n x" if "n \<in> set (split_comma k)" for n x
    proof -
      from that notin have "n \<noteq> c" by auto
      then show ?thesis by (simp add: same)
    qed
    then show ?thesis
      using notin False sub dist eq by (auto simp: cache_ok_def Let_def ents regd)
  next
    case isin: True
    show ?thesis
    proof (cases "list_all (\<lambda>name. component_has s name e) (split_comma k)")
      case all: True
      then have "component_has s c e" using isin by (auto simp: list_all_iff)
      then have live': "e \<in> set (entities s0)" by (rule live)
      have key: "(\<forall>n\<in>set (split_comma k). component_has s n x) \<longleftrightarrow>
          x = e \<or> (\<forall>n\<in>set (split_comma k). component_has s0 n x)" for x
      proof (cases "x = e")
        case True
        then show ?thesis using all by (simp add: list_all_iff)
      next
        case False
        then show ?thesis by (simp add: same)
      qed
      have "set (js_set_add e cache) =
          {x \<in> set (entities s0). \<forall>n\<in>set (split_comma k). component_has s n x}"
        unfolding key using eq live' by auto
      then show ?thesis
        using isin all False sub dist
        by (simp add: cache_ok_def Let_def ents regd)
    next
      case notall: False
      have key: "(\<forall>n\<in>set (split_comma k). component_has s n x) \<longleftrightarrow>
          x \<noteq> e \<and> (\<forall>n\<in>set (split_comma k). component_has s0 n x)" for x
      proof (cases "x = e")
        case True
        then show ?thesis using notall by (simp add: list_all_iff)
      next
        case False
        then show ?thesis by (simp add: same)
      qed
      have "set (js_set_delete e cache) =
          {x \<in> set (entities s0). \<forall>n\<in>set (split_comma k). component_has s n x}"
        unfolding key using eq by auto
      then show ?thesis
        using isin notall False sub dist
        by (simp add: cache_ok_def Let_def ents regd)
    qed
  qed
qed

lemma caches_ok_updateCaches:
  assumes old: "\<forall>entry\<in>set (queryCache s0). cache_ok s0 entry"
    and qc: "queryCache s = queryCache s0"
    and same: "\<And>n x. n \<noteq> c \<or> x \<noteq> e \<Longrightarrow> component_has s n x = component_has s0 n x"
    and ents: "entities s = entities s0" and regd: "registered s = registered s0"
    and live: "component_has s c e \<Longrightarrow> e \<in> set (entities s0)"
  shows "\<forall>entry\<in>set (queryCache (updateCaches e c s)). cache_ok (updateCaches e c s) entry"
proof
  fix entry assume "entry \<in> set (queryCache (updateCaches e c s))"
  then obtain k cache where kc: "(k, cache) \<in> set (queryCache s0)"
    and entry: "entry = (let componentsInQuery = split_comma k in
      if c \<notin> set componentsInQuery then (k, cache)
      else if list_all (\<lambda>name. component_has s name e) componentsInQuery
           then (k, js_set_add e cache)
           else (k, js_set_delete e cache))"
    by (auto simp: updateCaches_def qc)
  from kc old have "cache_ok s0 (k, cache)" by auto
  then show "cache_ok (updateCaches e c s) entry"
    unfolding entry using same ents regd live by (rule cache_ok_updateCaches)
qed

subsection \<open>Adding and removing a component\<close>

lemma map_of_map_entry_has:
  "map_of (AList.map_entry c f al) n =
     (if n = c then map_option f (map_of al c) else map_of al n)"
  by (induction al) auto

lemma fst_map_entry [simp]: "map fst (AList.map_entry c f al) = map fst al"
  by (induction al) auto

lemma ecs_inv_component_add:
  assumes inv: "ecs_inv s" and c: "c \<in> registered s" and e: "e \<in> set (entities s)"
  shows "ecs_inv (component_add c e v s)"
proof -
  let ?m = "s\<lparr>componentRegistry := AList.map_entry c (\<lambda>data. data(e \<mapsto> v)) (componentRegistry s)\<rparr>"
  have has_m: "component_has ?m n x \<longleftrightarrow> component_has s n x \<or> (n = c \<and> x = e)" for n x
    using c by (auto simp: component_has_def map_of_map_entry_has registered_def
        map_of_eq_None_iff split: option.splits)
  have regd: "registered ?m = registered s"
    by (metis (no_types) registered_def set_map fst_map_entry ecs.select_convs(3)
        ecs.surjective ecs.update_convs(3))
  have caches: "\<forall>entry\<in>set (queryCache (updateCaches e c ?m)). cache_ok (updateCaches e c ?m) entry"
  proof (rule caches_ok_updateCaches [where ?s0.0 = s])
    show "\<forall>entry\<in>set (queryCache s). cache_ok s entry" using inv by (simp add: ecs_inv_def)
  qed (use has_m regd e in auto)
  have "map fst (componentRegistry (updateCaches e c ?m)) = map fst (componentRegistry s)"
    by (simp add: updateCaches_def)
  moreover from this have "length (componentRegistry (updateCaches e c ?m)) = length (componentRegistry s)"
    by (metis length_map)
  moreover have "nextEntityId (updateCaches e c ?m) = nextEntityId s"
    by (simp add: updateCaches_def)
  ultimately show ?thesis
    using inv caches e unfolding ecs_inv_def component_add_def
    by (auto simp: has_m)
qed

lemma ecs_inv_component_remove:
  assumes inv: "ecs_inv s" and c: "c \<in> registered s"
  shows "ecs_inv (component_remove c e s)"
proof (cases "component_has s c e")
  case False
  then show ?thesis using inv by (simp add: component_remove_def)
next
  case True
  let ?m = "s\<lparr>componentRegistry := AList.map_entry c (\<lambda>data. data(e := None)) (componentRegistry s)\<rparr>"
  have has_m: "component_has ?m n x \<longleftrightarrow> component_has s n x \<and> \<not> (n = c \<and> x = e)" for n x
    by (auto simp: component_has_def map_of_map_entry_has split: option.splits)
  have regd: "registered ?m = registered s"
    by (metis (no_types) registered_def set_map fst_map_entry ecs.select_convs(3)
        ecs.surjective ecs.update_convs(3))
  have caches: "\<forall>entry\<in>set (queryCache (updateCaches e c ?m)). cache_ok (updateCaches e c ?m) entry"
  proof (rule caches_ok_updateCaches [where ?s0.0 = s])
    show "\<forall>entry\<in>set (queryCache s). cache_ok s entry" using inv by (simp add: ecs_inv_def)
  qed (use has_m regd in auto)
  have "map fst (componentRegistry (updateCaches e c ?m)) = map fst (componentRegistry s)"
    by (simp add: updateCaches_def)
  moreover from this have "length (componentRegistry (updateCaches e c ?m)) = length (componentRegistry s)"
    by (metis length_map)
  moreover have "nextEntityId (updateCaches e c ?m) = nextEntityId s"
    by (simp add: updateCaches_def)
  ultimately show ?thesis
    using inv caches True unfolding ecs_inv_def component_remove_def
    by (auto simp: has_m)
qed

subsection \<open>defineQuery\<close>

lemma set_bruteForce:
  "set (bruteForce s cs) = {e \<in> set (entities s). \<forall>c\<in>set cs. component_has s c e}"
  by (auto simp: bruteForce_def list_all_iff)

lemma distinct_bruteForce: "distinct (entities s) \<Longrightarrow> distinct (bruteForce s cs)"
  by (simp add: bruteForce_def)

lemma has_queryCache_update [simp]:
  "component_has (s\<lparr>queryCache := q\<rparr>) = component_has s"
  by (simp add: component_has_def fun_eq_iff)

lemma registered_queryCache_update [simp]:
  "registered (s\<lparr>queryCache := q\<rparr>) = registered s"
  by (simp add: registered_def)

lemma ecs_inv_defineQuery:
  assumes inv: "ecs_inv s" and cs: "set cs \<subseteq> registered s"
  shows "ecs_inv (defineQuery cs s)"
proof (cases "map_of (queryCache s) (queryKeyOf cs) = None")
  case False
  then show ?thesis using inv by (auto simp: defineQuery_def Let_def)
next
  case True
  let ?s' = "s\<lparr>queryCache := queryCache s @ [(queryKeyOf cs, bruteForce s cs)]\<rparr>"
  have s': "defineQuery cs s = ?s'" using True by (simp add: defineQuery_def Let_def)
  have has: "component_has ?s' = component_has s"
    by (simp add: component_has_def fun_eq_iff)
  have regd: "registered ?s' = registered s" by (simp add: registered_def)
  have new: "cache_ok ?s' (queryKeyOf cs, bruteForce s cs)"
  proof (cases "cs = []")
    case True
    then show ?thesis by (simp add: cache_ok_def queryKeyOf_def)
  next
    case False
    have "\<forall>x\<in>set cs. CHR '','' \<notin> set x"
      using cs registered_no_comma [OF inv] by auto
    with False have "split_comma (queryKeyOf cs) = sort cs" by (rule split_queryKeyOf)
    then show ?thesis
      using inv cs by (auto simp: cache_ok_def set_bruteForce distinct_bruteForce ecs_inv_def)
  qed
  have "cache_ok ?s' entry" if "entry \<in> set (queryCache s)" for entry
  proof -
    from that inv have "cache_ok s entry" by (simp add: ecs_inv_def)
    then show ?thesis unfolding cache_ok_def by simp
  qed
  with new have "\<forall>entry\<in>set (queryCache ?s'). cache_ok ?s' entry" by auto
  then show ?thesis
    using inv unfolding s' ecs_inv_def by simp
qed

subsection \<open>Sequences of operations\<close>

lemma ecs_inv_apply_op: "ecs_inv s \<Longrightarrow> op_ok s x \<Longrightarrow> ecs_inv (apply_op x s)"
  by (cases x)
    (simp_all add: ecs_inv_addEntity ecs_inv_removeEntity ecs_inv_defineComponent
      ecs_inv_component_add ecs_inv_component_remove ecs_inv_defineQuery)

lemma ecs_inv_run_ops: "ecs_inv s \<Longrightarrow> valid_ops s xs \<Longrightarrow> ecs_inv (run_ops xs s)"
  unfolding run_ops_def by (induction xs arbitrary: s) (auto simp: ecs_inv_apply_op)

lemma registered_apply_op: "registered s \<subseteq> registered (apply_op x s)"
proof (cases x)
  case DefineComponent
  then show ?thesis
    by (auto simp: defineComponent_def Let_def registered_def dom_update)
next
  case (AddComponent c e v)
  have "map fst (componentRegistry (component_add c e v s)) = map fst (componentRegistry s)"
    by (simp add: component_add_def updateCaches_def)
  then have "registered (component_add c e v s) = registered s"
    unfolding registered_def by (metis set_map)
  with AddComponent show ?thesis by simp
next
  case (RemoveComponent c e)
  have "map fst (componentRegistry (component_remove c e s)) = map fst (componentRegistry s)"
    by (simp add: component_remove_def updateCaches_def)
  then have "registered (component_remove c e s) = registered s"
    unfolding registered_def by (metis set_map)
  with RemoveComponent show ?thesis by simp
next
  case (DefineQuery cs)
  then show ?thesis by (simp add: defineQuery_def Let_def)
qed simp_all

lemma registered_run_ops: "registered s \<subseteq> registered (run_ops xs s)"
  unfolding run_ops_def
proof (induction xs arbitrary: s)
  case Nil
  show ?case by simp
next
  case (Cons x xs)
  have "registered s \<subseteq> registered (apply_op x s)" by (rule registered_apply_op)
  also have "\<dots> \<subseteq> registered (fold apply_op xs (apply_op x s))" by (rule Cons.IH)
  finally show ?case by simp
qed

definition query_keys :: "'v ecs \<Rightarrow> string set" where
  "query_keys s = fst ` set (queryCache s)"

lemma query_keys_apply_op: "query_keys s \<subseteq> query_keys (apply_op x s)"
proof -
  have "map fst (queryCache (updateCaches e c t)) = map fst (queryCache t)" for e c and t :: "'v ecs"
    by (simp add: updateCaches_def Let_def case_prod_beta comp_def)
  then have upd: "query_keys (updateCaches e c t) = query_keys t" for e c and t :: "'v ecs"
    unfolding query_keys_def by (metis set_map)
  have "map fst (queryCache (removeEntity e s)) = map fst (queryCache s)" for e
    by (simp add: removeEntity_def case_prod_beta comp_def)
  then have rem: "query_keys (removeEntity e s) = query_keys s" for e
    unfolding query_keys_def by (metis set_map)
  show ?thesis
  proof (cases x)
    case AddEntity
    then show ?thesis by (simp add: addEntity_def Let_def query_keys_def)
  next
    case (RemoveEntity e)
    then show ?thesis by (simp add: rem)
  next
    case DefineComponent
    then show ?thesis by (simp add: defineComponent_def Let_def query_keys_def)
  next
    case (AddComponent c e v)
    then show ?thesis by (simp add: component_add_def upd) (simp add: query_keys_def)
  next
    case (RemoveComponent c e)
    then show ?thesis by (simp add: component_remove_def upd) (simp add: query_keys_def)
  next
    case (DefineQuery cs)
    then show ?thesis by (auto simp: defineQuery_def Let_def query_keys_def)
  qed
qed

lemma query_keys_run_ops: "query_keys s \<subseteq> query_keys (run_ops xs s)"
  unfolding run_ops_def
proof (induction xs arbitrary: s)
  case Nil
  show ?case by simp
next
  case (Cons x xs)
  have "query_keys s \<subseteq> query_keys (apply_op x s)" by (rule query_keys_apply_op)
  also have "\<dots> \<subseteq> query_keys (fold apply_op xs (apply_op x s))" by (rule Cons.IH)
  finally show ?case by simp
qed

lemma query_keys_defineQuery: "queryKeyOf cs \<in> query_keys (defineQuery cs s)"
  by (auto simp: defineQuery_def Let_def query_keys_def dest: map_of_SomeD intro: rev_image_eqI)

lemma valid_ops_append:
  "valid_ops s (xs @ ys) \<longleftrightarrow> valid_ops s xs \<and> valid_ops (run_ops xs s) ys"
  unfolding run_ops_def by (induction xs arbitrary: s) auto

lemma run_ops_append: "run_ops (xs @ ys) s = run_ops ys (run_ops xs s)"
  by (simp add: run_ops_def)

text \<open>
  C1 (amended).  Take any sequence of entity creations, entity destructions, component
  definitions, component additions, component removals and query definitions on a new store,
  in which every handle used was returned by \<open>defineComponent\<close> before and components are
  added only to entities that exist.  Then every query defined in the sequence with at least
  one component kind resolves to a duplicate-free collection whose members are exactly the
  entities of the brute-force filter over the current entities.
\<close>

theorem query_cache_consistent:
  assumes valid: "valid_ops new_ecs ops"
    and defined: "DefineQuery cs \<in> set ops"
    and nonempty: "cs \<noteq> []"
  shows "\<exists>cache. resolve cs (run_ops ops new_ecs) = Some cache \<and> distinct cache \<and>
           set cache = set (bruteForce (run_ops ops new_ecs) cs)"
proof -
  let ?s = "run_ops ops (new_ecs :: 'a ecs)"
  from defined obtain pre post where ops: "ops = pre @ DefineQuery cs # post"
    by (auto dest: split_list)
  let ?p = "run_ops pre (new_ecs :: 'a ecs)"
  have vp: "valid_ops new_ecs pre" and ok: "op_ok ?p (DefineQuery cs)"
    using valid unfolding ops by (simp_all add: valid_ops_append)
  have s: "?s = run_ops post (defineQuery cs ?p)"
    unfolding ops by (simp add: run_ops_def)
  have inv: "ecs_inv ?s" using ecs_inv_new valid by (rule ecs_inv_run_ops)
  have "set cs \<subseteq> registered ?p" using ok by simp
  also have "\<dots> \<subseteq> registered (defineQuery cs ?p)" by (simp add: defineQuery_def Let_def)
  also have "\<dots> \<subseteq> registered ?s" unfolding s by (rule registered_run_ops)
  finally have cs: "set cs \<subseteq> registered ?s" .
  have "queryKeyOf cs \<in> query_keys ?s"
    unfolding s using query_keys_defineQuery query_keys_run_ops by blast
  then obtain cache where look: "map_of (queryCache ?s) (queryKeyOf cs) = Some cache"
    unfolding query_keys_def by (metis map_of_eq_None_iff not_Some_eq)
  then have "(queryKeyOf cs, cache) \<in> set (queryCache ?s)" by (rule map_of_SomeD)
  with inv have ok: "cache_ok ?s (queryKeyOf cs, cache)" by (auto simp: ecs_inv_def)
  have "\<forall>x\<in>set cs. CHR '','' \<notin> set x"
    using cs registered_no_comma [OF inv] by auto
  with nonempty have split: "split_comma (queryKeyOf cs) = sort cs" by (rule split_queryKeyOf)
  obtain c where "c \<in> set cs" using nonempty by (cases cs) auto
  then have "c \<in> set (split_comma (queryKeyOf cs))" "c \<noteq> []"
    using cs registered_nonempty [OF inv] by (auto simp: split)
  then have "queryKeyOf cs \<noteq> []" by auto
  with ok have "distinct cache \<and> set cache = set (bruteForce ?s cs)"
    by (simp add: cache_ok_def split set_bruteForce)
  with look show ?thesis by (simp add: resolve_def)
qed

text \<open>A sequence of operations that satisfies the hypotheses of C1.\<close>

definition witness_ops :: "unit ecs_op list" where
  "witness_ops =
     [DefineComponent, DefineComponent, AddEntity, AddComponent ''c0'' 1 (),
      DefineQuery [''c1'', ''c0''], AddEntity, AddComponent ''c1'' 1 (), AddComponent ''c1'' 2 (),
      RemoveEntity 2]"

lemma witness_ops_valid: "valid_ops new_ecs witness_ops"
  by code_simp

theorem query_cache_consistent_witness:
  "valid_ops new_ecs witness_ops \<and> DefineQuery [''c1'', ''c0''] \<in> set witness_ops \<and>
   [''c1'', ''c0''] \<noteq> ([] :: string list) \<and>
   (\<exists>cache. resolve [''c1'', ''c0''] (run_ops witness_ops new_ecs) = Some cache \<and> distinct cache \<and>
      set cache = set (bruteForce (run_ops witness_ops new_ecs) [''c1'', ''c0'']))"
proof -
  have d: "DefineQuery [''c1'', ''c0''] \<in> set witness_ops" by (simp add: witness_ops_def)
  show ?thesis
    using query_cache_consistent [OF witness_ops_valid d] witness_ops_valid d by simp
qed

text \<open>
  C1 (as stated, refuted).  After \<open>defineQuery([])\<close> and one \<open>addEntity()\<close> the query with
  the empty predicate still resolves to the empty set although the brute-force filter yields
  entity 1: the key of that query is the empty string, which \<open>#updateCaches\<close> splits into
  one empty name that no component carries.  And after a component is added to the identifier
  7, which was never created, the cache of its query holds 7 although no such entity exists.
\<close>

theorem query_cache_stale_counterexample:
  "resolve [] (run_ops [DefineQuery [], AddEntity] (new_ecs :: unit ecs)) = Some [] \<and>
   bruteForce (run_ops [DefineQuery [], AddEntity] (new_ecs :: unit ecs)) [] = [1] \<and>
   resolve [''c0''] (run_ops [DefineComponent, DefineQuery [''c0''], AddComponent ''c0'' 7 ()] new_ecs) = Some [7] \<and>
   bruteForce (run_ops [DefineComponent, DefineQuery [''c0''], AddComponent ''c0'' 7 ()] new_ecs) [''c0''] = []"
  by code_simp

lemma get_updateCaches [simp]: "component_get (updateCaches e c s) = component_get s"
  by (simp add: updateCaches_def component_get_def fun_eq_iff)

lemma get_addEntity [simp]: "component_get (snd (addEntity s)) = component_get s"
  by (simp add: addEntity_def component_get_def fun_eq_iff Let_def)

lemma has_iff_get: "component_has s n x \<longleftrightarrow> component_get s n x \<noteq> None"
  by (simp add: component_has_def component_get_def split: option.splits)

lemma get_map_entry:
  "component_get (s\<lparr>componentRegistry := AList.map_entry c f (componentRegistry s)\<rparr>) n x =
     (if n = c then (case map_of (componentRegistry s) c of None \<Rightarrow> None | Some d \<Rightarrow> f d x)
      else component_get s n x)"
  by (simp add: component_get_def map_of_map_entry_has split: option.splits)

lemma get_component_mutate:
  "component_get (component_mutate c e f s) n x =
     (if n = c \<and> x = e then map_option f (component_get s n x) else component_get s n x)"
  unfolding component_mutate_def get_map_entry
  by (simp add: component_get_def split: option.splits)

lemma get_component_add:
  "component_get (component_add c e v s) n x =
     (if n = c \<and> x = e \<and> c \<in> registered s then Some v else component_get s n x)"
  unfolding component_add_def get_updateCaches get_map_entry
  by (auto simp: component_get_def registered_def dom_map_of_conv_image_fst [symmetric] domIff
      split: option.splits)

lemma get_component_remove:
  "component_get (component_remove c e s) n x =
     (if n = c \<and> x = e then None else component_get s n x)"
proof (cases "component_has s c e")
  case True
  then show ?thesis
    unfolding component_remove_def
    by (simp add: get_map_entry) (simp add: component_get_def split: option.splits)
next
  case False
  then show ?thesis
    by (simp add: component_remove_def has_iff_get)
qed

lemma get_removeEntity:
  "e \<in> set (entities s) \<Longrightarrow>
   component_get (removeEntity e s) n x = (if x = e then None else component_get s n x)"
  by (auto simp: removeEntity_def component_get_def map_of_map_data split: option.splits)

lemma hypot_zero_right [simp]: "hypot a 0 = \<bar>a\<bar>"
  by (simp add: hypot_def)

lemma hypot_nonneg [simp]: "0 \<le> hypot a b"
  by (simp add: hypot_def)

subsection \<open>Knockback on enemy contact\<close>

text \<open>
  C7 (as stated, refuted).  With the player 0.6 to the right of the enemy, the player's
  velocity receives 15 along the normal and the enemy's receives 7.5 against it: the two
  knockbacks are opposite but not equal in magnitude.
\<close>

theorem knockback_not_equal_counterexample:
  "player_knockback 0.6 0 0 0 = (15, 0) \<and> enemy_knockback 0.6 0 0 0 = (-7.5, 0)"
  by (simp add: player_knockback_def enemy_knockback_def contact_normal_def
      ENEMY_KNOCKBACK_FORCE_def Let_def)

lemma enemy_knockback_half:
  "enemy_knockback px pz ex ez =
     (- (fst (player_knockback px pz ex ez) / 2), - (snd (player_knockback px pz ex ez) / 2))"
  by (simp add: player_knockback_def enemy_knockback_def Let_def case_prod_beta)

text \<open>
  C7 (amended).  When contact damage is applied to enemy \<open>e\<close>, the player's velocity gains
  the knockback \<open>(kx, kz)\<close> along the separating normal and the enemy's velocity gains
  exactly minus one half of it: opposite in direction, half the magnitude.  The player's
  knockback has magnitude \<open>ENEMY_KNOCKBACK_FORCE\<close>, or zero when the two positions coincide
  in the plane.
\<close>

theorem contact_knockback:
  assumes pos_p: "component_get (world g) (Position (comps g)) p = Some (Vec3 px py pz)"
    and pos_e: "component_get (world g) (Position (comps g)) e = Some (Vec3 ex ey ez)"
    and vel_p: "component_get (world g) (Velocity (comps g)) p = Some (Vec3 vx vy vz)"
    and vel_e: "component_get (world g) (Velocity (comps g)) e = Some (Vec3 ux uy uz)"
    and distinct_entities: "p \<noteq> e"
    and distinct_kinds: "Velocity (comps g) \<noteq> InvulnerabilityShield (comps g)"
      "Velocity (comps g) \<noteq> EffectTimer (comps g)"
    and kx: "kx = fst (player_knockback px pz ex ez)"
    and kz: "kz = snd (player_knockback px pz ex ez)"
  shows "\<exists>g'. contactDamage now p e g = Inr g' \<and>
     component_get (world g') (Velocity (comps g)) p = Some (Vec3 (vx + kx) vy (vz + kz)) \<and>
     component_get (world g') (Velocity (comps g)) e = Some (Vec3 (ux - kx / 2) uy (uz - kz / 2)) \<and>
     hypot (kx / 2) (kz / 2) = hypot kx kz / 2 \<and>
     hypot kx kz = (if hypot (px - ex) (pz - ez) = 0 then 0 else ENEMY_KNOCKBACK_FORCE)"
proof -
  obtain nx nz where n: "contact_normal px pz ex ez = (nx, nz)" by (cases "contact_normal px pz ex ez")
  have k: "player_knockback px pz ex ez = (kx, kz)" by (simp add: kx kz)
  have ek: "enemy_knockback px pz ex ez = (- (kx / 2), - (kz / 2))"
    by (simp add: enemy_knockback_half kx kz)
  have half: "hypot (kx / 2) (kz / 2) = hypot kx kz / 2"
  proof -
    have "(kx / 2)\<^sup>2 + (kz / 2)\<^sup>2 = (kx\<^sup>2 + kz\<^sup>2) / 4"
      by (simp add: power2_eq_square field_simps)
    then have "sqrt ((kx / 2)\<^sup>2 + (kz / 2)\<^sup>2) = sqrt (kx\<^sup>2 + kz\<^sup>2) / sqrt 4"
      by (simp only: real_sqrt_divide)
    then show ?thesis
      unfolding hypot_def by simp
  qed
  have mag: "hypot kx kz = (if hypot (px - ex) (pz - ez) = 0 then 0 else ENEMY_KNOCKBACK_FORCE)"
  proof (cases "hypot (px - ex) (pz - ez) = 0")
    case True
    then have "px - ex = 0 \<and> pz - ez = 0"
      unfolding hypot_def by (simp add: sum_power2_eq_zero_iff)
    then show ?thesis
      using True unfolding kx kz
      by (simp add: player_knockback_def contact_normal_def Let_def hypot_def)
  next
    case False
    define d where "d = hypot (px - ex) (pz - ez)"
    have dpos: "d > 0" using False hypot_nonneg [of "px - ex" "pz - ez"] unfolding d_def by linarith
    have d2: "d\<^sup>2 = (px - ex)\<^sup>2 + (pz - ez)\<^sup>2"
      unfolding d_def hypot_def by simp
    have kxv: "kx = (px - ex) / d * ENEMY_KNOCKBACK_FORCE" and kzv: "kz = (pz - ez) / d * ENEMY_KNOCKBACK_FORCE"
      using False unfolding kx kz d_def
      by (simp_all add: player_knockback_def contact_normal_def Let_def)
    define q where "q = (px - ex)\<^sup>2 + (pz - ez)\<^sup>2"
    have "q = d\<^sup>2" by (simp add: q_def d2)
    then have one: "q / d\<^sup>2 = 1" using dpos by simp
    have "kx\<^sup>2 + kz\<^sup>2 = q / d\<^sup>2 * ENEMY_KNOCKBACK_FORCE\<^sup>2"
      unfolding kxv kzv q_def
      by (simp add: power_mult_distrib power_divide add_divide_distrib distrib_right)
    also have "\<dots> = ENEMY_KNOCKBACK_FORCE\<^sup>2" by (simp only: one mult_1)
    finally have "hypot kx kz = \<bar>ENEMY_KNOCKBACK_FORCE\<bar>" unfolding hypot_def by simp
    then show ?thesis using False by (simp add: ENEMY_KNOCKBACK_FORCE_def)
  qed
  let ?V = "Velocity (comps g)"
  have run: "\<exists>g'. contactDamage now p e g = Inr g' \<and>
     component_get (world g') ?V p = Some (Vec3 (vx + kx) vy (vz + kz)) \<and>
     component_get (world g') ?V e = Some (Vec3 (ux - kx / 2) uy (uz - kz / 2))"
    using pos_p pos_e vel_p vel_e distinct_entities distinct_kinds
    by (simp add: contactDamage_def Let_def k ek get_component_add get_component_mutate
        case_prod_beta)
  with half mag show ?thesis by blast
qed

text \<open>
  A store with a player (entity 1), an enemy (entity 2) and the goal (entity 3), set up by
  the constructor and the creation helpers (meshes and animation payloads aside).
\<close>

definition sample_world :: "compval ecs" where
  "sample_world =
     run_ops
       (setup_ops @
        [AddEntity, AddComponent ''c3'' 1 Tag, AddComponent ''c0'' 1 (Vec3 0.6 1.2 0),
         AddComponent ''c1'' 1 (Vec3 0 0 0),
         AddEntity, AddComponent ''c10'' 2 Other, AddComponent ''c0'' 2 (Vec3 0 1 0),
         AddComponent ''c1'' 2 (Vec3 0 0 0),
         AddEntity, AddComponent ''c6'' 3 Tag, AddComponent ''c0'' 3 (Vec3 1 0.15 0)])
       new_ecs"

definition sample_game :: game where
  "sample_game =
     \<lparr>world = sample_world, comps = game_components,
      gameState = new_game_state\<lparr>level := 19\<rparr>, state_gameState = Playing,
      screenShake = 0, timeouts = [], played = [], frameRequested = True\<rparr>"

lemma constructor_handles:
  "map (\<lambda>k. fst (defineComponent (run_ops (replicate k DefineComponent) (new_ecs :: compval ecs))))
     [0..<21] =
   [''c0'', ''c1'', ''c2'', ''c3'', ''c4'', ''c5'', ''c6'', ''c7'', ''c8'', ''c9'', ''c10'',
    ''c11'', ''c12'', ''c13'', ''c14'', ''c15'', ''c16'', ''c17'', ''c18'', ''c19'', ''c20'']"
  by code_simp

lemma sample_comps: "comps sample_game = game_components"
  by (simp add: sample_game_def)

lemma sample_handles:
  "Position game_components = ''c0''" "Velocity game_components = ''c1''"
  "Goal game_components = ''c6''" "Enemy game_components = ''c10''"
  "EffectTimer game_components = ''c17''" "InvulnerabilityShield game_components = ''c19''"
  by (simp_all add: game_components_def)

lemma sample_positions:
  "component_get sample_world ''c0'' 1 = Some (Vec3 0.6 1.2 0)"
  "component_get sample_world ''c0'' 2 = Some (Vec3 0 1 0)"
  "component_get sample_world ''c0'' 3 = Some (Vec3 1 0.15 0)"
  "component_get sample_world ''c1'' 1 = Some (Vec3 0 0 0)"
  "component_get sample_world ''c1'' 2 = Some (Vec3 0 0 0)"
  by code_simp+

lemma sample_goals: "resolve (q_goals game_components) sample_world = Some [3]"
  by code_simp

text \<open>The hypotheses of C7 hold for the player and the enemy of the sample store.\<close>

theorem contact_knockback_witness:
  "component_get (world sample_game) (Position (comps sample_game)) 1 = Some (Vec3 0.6 1.2 0) \<and>
   component_get (world sample_game) (Position (comps sample_game)) 2 = Some (Vec3 0 1 0) \<and>
   component_get (world sample_game) (Velocity (comps sample_game)) 1 = Some (Vec3 0 0 0) \<and>
   component_get (world sample_game) (Velocity (comps sample_game)) 2 = Some (Vec3 0 0 0) \<and>
   (1::nat) \<noteq> 2 \<and>
   Velocity (comps sample_game) \<noteq> InvulnerabilityShield (comps sample_game) \<and>
   Velocity (comps sample_game) \<noteq> EffectTimer (comps sample_game) \<and>
   (15::real) = fst (player_knockback 0.6 0 0 0) \<and>
   (0::real) = snd (player_knockback 0.6 0 0 0) \<and>
   (\<exists>g'. contactDamage 0 1 2 sample_game = Inr g' \<and>
     component_get (world g') (Velocity (comps sample_game)) 1 = Some (Vec3 (0 + 15) 0 (0 + 0)) \<and>
     component_get (world g') (Velocity (comps sample_game)) 2
       = Some (Vec3 (0 - 15 / 2) 0 (0 - 0 / 2)) \<and>
     hypot (15 / 2) (0 / 2) = hypot 15 0 / 2 \<and>
     hypot 15 0 = (if hypot (0.6 - 0) (0 - 0) = 0 then 0 else ENEMY_KNOCKBACK_FORCE))"
proof -
  have w: "world sample_game = sample_world" by (simp add: sample_game_def)
  have k: "player_knockback 0.6 0 0 0 = (15, 0)"
    by (simp add: player_knockback_def contact_normal_def ENEMY_KNOCKBACK_FORCE_def Let_def)
  have h1: "component_get (world sample_game) (Position (comps sample_game)) 1 = Some (Vec3 0.6 1.2 0)"
    and h2: "component_get (world sample_game) (Position (comps sample_game)) 2 = Some (Vec3 0 1 0)"
    and h3: "component_get (world sample_game) (Velocity (comps sample_game)) 1 = Some (Vec3 0 0 0)"
    and h4: "component_get (world sample_game) (Velocity (comps sample_game)) 2 = Some (Vec3 0 0 0)"
    unfolding w sample_comps sample_handles by (rule sample_positions)+
  have h5: "(1::nat) \<noteq> 2"
    and h6: "Velocity (comps sample_game) \<noteq> InvulnerabilityShield (comps sample_game)"
    and h7: "Velocity (comps sample_game) \<noteq> EffectTimer (comps sample_game)"
    by (simp_all add: sample_comps sample_handles)
  have h8: "(15::real) = fst (player_knockback 0.6 0 0 0)"
    and h9: "(0::real) = snd (player_knockback 0.6 0 0 0)"
    unfolding k by simp_all
  show ?thesis
    by (intro conjI h1 h2 h3 h4 h5 h6 h7 h8 h9
        contact_knockback [OF h1 h2 h3 h4 h5 h6 h7 h8 h9])
qed

lemma frame_after_win:
  assumes "state_gameState g = GameWon"
  shows "(frame simulation presentation ^^ n) g =
     (if n = 0 then g else g\<lparr>frameRequested := False\<rparr>)"
proof (induction n)
  case 0
  show ?case by simp
next
  case (Suc n)
  have one: "frame simulation presentation g = g\<lparr>frameRequested := False\<rparr>"
    using assms by (cases "frameRequested g") (simp_all add: frame_def animate_def)
  have idle: "frame simulation presentation (g\<lparr>frameRequested := False\<rparr>) = g\<lparr>frameRequested := False\<rparr>"
    by (simp add: frame_def)
  show ?case using Suc one idle by (cases "n = 0") simp_all
qed

text \<open>
  C8.  If the phase is playing, the level is 19 and the player is within the goal-activation
  radius of the goal, then goal arrival raises the level to the victory threshold 20 and sets
  the phase to gameWon without scheduling level creation; and whatever the systems do, every
  later frame leaves the game as it is (the first one only consumes the pending frame
  request), so no frame schedules or runs level creation.
\<close>

theorem goal_victory:
  assumes playing: "state_gameState g = Playing"
    and lvl: "level (gameState g) = 19"
    and goals: "resolve (q_goals (comps g)) (world g) = Some (goalEid # rest)"
    and pos_p: "component_get (world g) (Position (comps g)) p = Some (Vec3 px py pz)"
    and pos_g: "component_get (world g) (Position (comps g)) goalEid = Some (Vec3 gx gy gz)"
    and near: "hypot (px - gx) (pz - gz) < GOAL_ACTIVATION_RADIUS"
  shows "\<exists>g'. goalArrival p g = Inr g' \<and> state_gameState g' = GameWon \<and>
     level (gameState g') = VICTORY_LEVEL \<and>
     timeouts g' = timeouts g \<and> world g' = world g \<and>
     (\<forall>simulation presentation n.
        (frame simulation presentation ^^ n) g' =
          (if n = 0 then g' else g'\<lparr>frameRequested := False\<rparr>))"
proof -
  define s3 where "s3 =
    (let multiplier = (case component_get (world g) (ScoreMultiplierEffect (comps g)) p of
                         Some (ScoreMultiplierV v) \<Rightarrow> v | _ \<Rightarrow> 1);
         s1 = addScore (200 * level (gameState g)) multiplier (gameState g);
         s2 = set_level (level s1 + 1) s1
     in set_health (health s2 + LEVEL_UP_HEAL_AMOUNT) s2)"
  have lev: "level s3 = 20"
    by (simp add: s3_def Let_def addScore_def set_score_def set_level_def set_health_def
        emit_def lvl)
  define g' where "g' = g\<lparr>gameState := s3, state_gameState := GameWon\<rparr>"
  have "goalArrival p g = Inr g'"
    using playing goals pos_p pos_g near lev
    by (simp add: goalArrival_def g'_def s3_def Let_def VICTORY_LEVEL_def)
  moreover have "state_gameState g' = GameWon" "timeouts g' = timeouts g" "world g' = world g"
    "level (gameState g') = VICTORY_LEVEL"
    by (simp_all add: g'_def lev VICTORY_LEVEL_def)
  ultimately show ?thesis
    using frame_after_win [of g'] by auto
qed

text \<open>The hypotheses of C8 hold in the sample game.\<close>

theorem goal_victory_witness:
  "state_gameState sample_game = Playing \<and> level (gameState sample_game) = 19 \<and>
   resolve (q_goals (comps sample_game)) (world sample_game) = Some [3] \<and>
   component_get (world sample_game) (Position (comps sample_game)) 1 = Some (Vec3 0.6 1.2 0) \<and>
   component_get (world sample_game) (Position (comps sample_game)) 3 = Some (Vec3 1 0.15 0) \<and>
   hypot (0.6 - 1) (0 - 0) < GOAL_ACTIVATION_RADIUS \<and>
   (\<exists>g'. goalArrival 1 sample_game = Inr g' \<and> state_gameState g' = GameWon \<and>
      level (gameState g') = VICTORY_LEVEL \<and>
      timeouts g' = timeouts sample_game \<and> world g' = world sample_game \<and>
      (\<forall>simulation presentation n.
        (frame simulation presentation ^^ n) g' =
          (if n = 0 then g' else g'\<lparr>frameRequested := False\<rparr>)))"
proof -
  have w: "world sample_game = sample_world" by (simp add: sample_game_def)
  have h1: "state_gameState sample_game = Playing"
    and h2: "level (gameState sample_game) = 19"
    by (simp_all add: sample_game_def)
  have h3: "resolve (q_goals (comps sample_game)) (world sample_game) = Some [3]"
    unfolding w sample_comps by (rule sample_goals)
  have h4: "component_get (world sample_game) (Position (comps sample_game)) 1 = Some (Vec3 0.6 1.2 0)"
    and h5: "component_get (world sample_game) (Position (comps sample_game)) 3 = Some (Vec3 1 0.15 0)"
    unfolding w sample_comps sample_handles by (rule sample_positions)+
  have h6: "hypot (0.6 - 1) (0 - 0) < GOAL_ACTIVATION_RADIUS"
    by (simp add: GOAL_ACTIVATION_RADIUS_def)
  show ?thesis
    by (intro conjI h1 h2 h3 h4 h5 h6 goal_victory [OF h1 h2 h3 h4 h5 h6])
qed

subsection \<open>Effect-timer expiry\<close>

text \<open>
  The timers among \<open>ts\<close> whose expiration lies before \<open>now\<close>, and the pairs of component
  kind and target that these timers name.
\<close>

definition expired :: "real \<Rightarrow> compval ecs \<Rightarrow> string \<Rightarrow> nat list \<Rightarrow> nat set" where
  "expired now w et ts =
     {t \<in> set ts. \<exists>T C E. component_get w et t = Some (EffectTimerV T C E) \<and> E < now}"

definition revoked :: "real \<Rightarrow> compval ecs \<Rightarrow> string \<Rightarrow> nat list \<Rightarrow> (string \<times> nat) set" where
  "revoked now w et ts =
     {(C, T). \<exists>t\<in>set ts. \<exists>E. component_get w et t = Some (EffectTimerV T C E) \<and> E < now}"

lemma ecs_inv_component_remove_any:
  assumes "ecs_inv s"
  shows "ecs_inv (component_remove c e s)"
proof (cases "component_has s c e")
  case True
  then have "c \<in> registered s" by (rule component_has_registered)
  with assms show ?thesis by (rule ecs_inv_component_remove)
next
  case False
  then show ?thesis using assms by (simp add: component_remove_def)
qed

lemma entities_component_remove [simp]: "entities (component_remove c e s) = entities s"
  by (simp add: component_remove_def)

lemma entities_removeEntity: "entities (removeEntity e s) = removeAll e (entities s)"
  by (simp add: removeEntity_def js_set_delete_def)

lemma ecs_inv_get_entity:
  "ecs_inv s \<Longrightarrow> component_get s n x = Some v \<Longrightarrow> x \<in> set (entities s)"
  by (auto simp: ecs_inv_def has_iff_get)

lemma filter_removeAll: "filter P (removeAll t xs) = filter (\<lambda>x. x \<noteq> t \<and> P x) xs"
  by (induction xs) auto

lemma world_update_same [simp]: "g\<lparr>world := world g\<rparr> = g"
  by simp

lemma expire_idle:
  assumes "\<forall>t\<in>set ts. component_get (world g) (EffectTimer (comps g)) t \<noteq> None"
    and "expired now (world g) (EffectTimer (comps g)) ts = {}"
  shows "forEach (expireTimer now) ts g = Inr g"
  using assms
proof (induction ts)
  case Nil
  show ?case by simp
next
  case (Cons t ts)
  from Cons.prems(1) obtain v where v: "component_get (world g) (EffectTimer (comps g)) t = Some v"
    by auto
  have "expireTimer now t g = Inr g"
  proof (cases v)
    case (EffectTimerV T C E)
    with v Cons.prems(2) have "\<not> E < now" by (auto simp: expired_def)
    with v EffectTimerV show ?thesis by (simp add: expireTimer_def)
  qed (simp_all add: expireTimer_def v)
  moreover have "expired now (world g) (EffectTimer (comps g)) ts = {}"
    using Cons.prems(2) by (auto simp: expired_def)
  ultimately show ?case using Cons.IH Cons.prems(1) by simp
qed

lemma expire_step:
  assumes inv: "ecs_inv (world g)"
    and v: "component_get (world g) (EffectTimer (comps g)) t = Some (EffectTimerV T C E)"
    and late: "E < now"
  shows "\<exists>w1. expireTimer now t g = Inr (g\<lparr>world := w1\<rparr>) \<and> ecs_inv w1 \<and>
      entities w1 = removeAll t (entities (world g)) \<and>
      (\<forall>n x. component_get w1 n x =
         (if x = t \<or> (n = C \<and> x = T) then None else component_get (world g) n x))"
proof -
  let ?W = "world g"
  define w0 where "w0 = (if entityExists ?W T then component_remove C T ?W else ?W)"
  have t_in: "t \<in> set (entities ?W)" using inv v by (rule ecs_inv_get_entity)
  have ents0: "entities w0 = entities ?W" by (simp add: w0_def)
  have inv0: "ecs_inv w0" using inv by (simp add: w0_def ecs_inv_component_remove_any)
  have get0: "component_get w0 n x = (if n = C \<and> x = T then None else component_get ?W n x)" for n x
  proof (cases "entityExists ?W T")
    case True
    then show ?thesis by (simp add: w0_def get_component_remove)
  next
    case False
    then have "component_get ?W C T = None"
      using ecs_inv_get_entity [OF inv, of C T] by (cases "component_get ?W C T") (auto simp: entityExists_def)
    with False show ?thesis by (simp add: w0_def)
  qed
  have step: "expireTimer now t g = Inr (g\<lparr>world := removeEntity t w0\<rparr>)"
    using v late by (simp add: expireTimer_def w0_def Let_def)
  have "ecs_inv (removeEntity t w0)" using inv0 by (rule ecs_inv_removeEntity)
  moreover have "entities (removeEntity t w0) = removeAll t (entities ?W)"
    by (simp add: entities_removeEntity ents0)
  moreover have "component_get (removeEntity t w0) n x =
      (if x = t \<or> (n = C \<and> x = T) then None else component_get ?W n x)" for n x
    using t_in by (simp add: get_removeEntity ents0 get0)
  ultimately show ?thesis using step by blast
qed

lemma expire_loop:
  assumes "ecs_inv (world g)" and "distinct ts"
    and "\<forall>t\<in>set ts. component_get (world g) (EffectTimer (comps g)) t \<noteq> None"
    and "\<forall>t\<in>set ts. \<forall>T C E.
           component_get (world g) (EffectTimer (comps g)) t = Some (EffectTimerV T C E)
           \<longrightarrow> C \<noteq> EffectTimer (comps g)"
  shows "\<exists>w'. forEach (expireTimer now) ts g = Inr (g\<lparr>world := w'\<rparr>) \<and> ecs_inv w' \<and>
      entities w' =
        filter (\<lambda>x. x \<notin> expired now (world g) (EffectTimer (comps g)) ts) (entities (world g)) \<and>
      (\<forall>n x. component_get w' n x =
         (if x \<in> expired now (world g) (EffectTimer (comps g)) ts
              \<or> (n, x) \<in> revoked now (world g) (EffectTimer (comps g)) ts
          then None else component_get (world g) n x))"
  using assms
proof (induction ts arbitrary: g)
  case Nil
  have "forEach (expireTimer now) [] g = Inr (g\<lparr>world := world g\<rparr>)" by simp
  moreover have "expired now (world g) (EffectTimer (comps g)) [] = {}"
    "revoked now (world g) (EffectTimer (comps g)) [] = {}"
    by (simp_all add: expired_def revoked_def)
  ultimately show ?case using Nil.prems(1) by (intro exI [of _ "world g"]) simp
next
  case (Cons t ts)
  let ?W = "world g" and ?et = "EffectTimer (comps g)"
  from Cons.prems(3) obtain v where v: "component_get ?W ?et t = Some v" by auto
  have t_notin: "t \<notin> set ts" and dist: "distinct ts" using Cons.prems(2) by simp_all
  show ?case
  proof (cases "\<exists>T C E. v = EffectTimerV T C E \<and> E < now")
    case True
    then obtain T C E where veq: "v = EffectTimerV T C E" and late: "E < now" by blast
    have vt: "component_get ?W ?et t = Some (EffectTimerV T C E)" using v veq by simp
    have Cne: "C \<noteq> ?et" using Cons.prems(4) vt by auto
    from expire_step [OF Cons.prems(1) vt late] obtain w1 where
      step: "expireTimer now t g = Inr (g\<lparr>world := w1\<rparr>)" and inv1: "ecs_inv w1"
      and ents1: "entities w1 = removeAll t (entities ?W)"
      and get1: "\<And>n x. component_get w1 n x =
         (if x = t \<or> (n = C \<and> x = T) then None else component_get ?W n x)"
      by blast
    let ?g1 = "g\<lparr>world := w1\<rparr>"
    have same: "component_get w1 ?et x = component_get ?W ?et x" if "x \<in> set ts" for x
      using that t_notin Cne by (auto simp: get1)
    have p1: "ecs_inv (world ?g1)" using inv1 by simp
    have p3: "\<forall>x\<in>set ts. component_get (world ?g1) (EffectTimer (comps ?g1)) x \<noteq> None"
      using Cons.prems(3) same by simp
    have p4: "\<forall>x\<in>set ts. \<forall>T C E.
           component_get (world ?g1) (EffectTimer (comps ?g1)) x = Some (EffectTimerV T C E)
           \<longrightarrow> C \<noteq> EffectTimer (comps ?g1)"
      using Cons.prems(4) same by simp
    from Cons.IH [OF p1 dist p3 p4] obtain w' where
      run: "forEach (expireTimer now) ts ?g1 = Inr (?g1\<lparr>world := w'\<rparr>)" and inv': "ecs_inv w'"
      and ents': "entities w' = filter (\<lambda>x. x \<notin> expired now w1 ?et ts) (entities w1)"
      and get': "\<And>n x. component_get w' n x =
         (if x \<in> expired now w1 ?et ts \<or> (n, x) \<in> revoked now w1 ?et ts
          then None else component_get w1 n x)"
      by auto
    have exp1: "expired now w1 ?et ts = expired now ?W ?et ts"
      unfolding expired_def using same by auto
    have rev1: "revoked now w1 ?et ts = revoked now ?W ?et ts"
      unfolding revoked_def using same by auto
    have expc: "expired now ?W ?et (t # ts) = insert t (expired now ?W ?et ts)"
      using vt late by (auto simp: expired_def)
    have revc: "revoked now ?W ?et (t # ts) = insert (C, T) (revoked now ?W ?et ts)"
      using vt late by (auto simp: revoked_def)
    have "forEach (expireTimer now) (t # ts) g = Inr (g\<lparr>world := w'\<rparr>)"
      using step run by simp
    moreover have "entities w' = filter (\<lambda>x. x \<notin> expired now ?W ?et (t # ts)) (entities ?W)"
      unfolding ents' ents1 exp1 expc by (simp add: filter_removeAll)
    moreover have "component_get w' n x =
         (if x \<in> expired now ?W ?et (t # ts) \<or> (n, x) \<in> revoked now ?W ?et (t # ts)
          then None else component_get ?W n x)" for n x
      unfolding get' exp1 rev1 expc revc get1 by auto
    ultimately show ?thesis using inv' by blast
  next
    case False
    have step: "expireTimer now t g = Inr g"
    proof (cases v)
      case (EffectTimerV T C E)
      with False have "\<not> E < now" by simp
      with v EffectTimerV show ?thesis by (simp add: expireTimer_def)
    qed (simp_all add: expireTimer_def v)
    have p3: "\<forall>x\<in>set ts. component_get ?W ?et x \<noteq> None" using Cons.prems(3) by simp
    have p4: "\<forall>x\<in>set ts. \<forall>T C E. component_get ?W ?et x = Some (EffectTimerV T C E)
           \<longrightarrow> C \<noteq> ?et"
      using Cons.prems(4) by simp
    from Cons.IH [OF Cons.prems(1) dist p3 p4] obtain w' where
      run: "forEach (expireTimer now) ts g = Inr (g\<lparr>world := w'\<rparr>)" and inv': "ecs_inv w'"
      and ents': "entities w' = filter (\<lambda>x. x \<notin> expired now ?W ?et ts) (entities ?W)"
      and get': "\<And>n x. component_get w' n x =
         (if x \<in> expired now ?W ?et ts \<or> (n, x) \<in> revoked now ?W ?et ts
          then None else component_get ?W n x)"
      by auto
    have expc: "expired now ?W ?et (t # ts) = expired now ?W ?et ts"
      using v False by (auto simp: expired_def)
    have revc: "revoked now ?W ?et (t # ts) = revoked now ?W ?et ts"
      using v False by (auto simp: revoked_def)
    have "forEach (expireTimer now) (t # ts) g = Inr (g\<lparr>world := w'\<rparr>)"
      using step run by simp
    then show ?thesis
      using inv' ents' get' unfolding expc revc by blast
  qed
qed

lemma timers_query:
  assumes inv: "ecs_inv w" and reg: "et \<in> registered w"
    and query: "resolve [et] w = Some timers"
  shows "distinct timers \<and> set timers = {e \<in> set (entities w). component_has w et e}"
proof -
  have key: "queryKeyOf [et] = et" by (simp add: queryKeyOf_def)
  have "(et, timers) \<in> set (queryCache w)"
    using query unfolding resolve_def key by (rule map_of_SomeD)
  with inv have ok: "cache_ok w (et, timers)" by (auto simp: ecs_inv_def)
  have "et \<noteq> []" using inv reg by (rule registered_nonempty)
  moreover have "split_comma et = [et]"
    using registered_no_comma [OF inv reg] by (rule split_comma_plain)
  ultimately show ?thesis using ok by (simp add: cache_ok_def)
qed

text \<open>
  C3 (amended).  Let the store be consistent, let the timers query be defined, and let no
  EffectTimer entity of the store name the EffectTimer kind itself as the kind to revoke.
  Then the expiry step at time \<open>now\<close> returns without an exception, and for every EffectTimer
  entity \<open>t\<close> with target \<open>T\<close>, kind \<open>C\<close> and expiration \<open>E\<close>: if \<open>E < now\<close>, then afterwards
  \<open>t\<close> is destroyed and \<open>T\<close> does not hold \<open>C\<close>, whether or not \<open>T\<close> still exists; if
  \<open>now \<le> E\<close> (the tick \<open>now = E\<close> included), then \<open>t\<close> still exists with its payload.
  After the step \<open>T\<close> holds \<open>C\<close> exactly if it held \<open>C\<close> before, \<open>T\<close> is not itself a timer
  entity that expired, and no timer naming \<open>T\<close> and \<open>C\<close> has expired: before \<open>E\<close> the step
  takes \<open>C\<close> from \<open>T\<close> only on behalf of another timer with the same target and kind and an
  earlier expiration.  In general a payload is lost only by a timer entity that expired or
  through a kind and target named by an expired timer, and a step at which no timer has
  expired changes nothing.
\<close>

theorem effect_timer_expiry:
  assumes inv: "ecs_inv (world g)"
    and reg: "EffectTimer (comps g) \<in> registered (world g)"
    and query: "resolve (q_timers (comps g)) (world g) = Some timers"
    and kinds: "\<forall>x\<in>set timers. \<forall>T C E.
        component_get (world g) (EffectTimer (comps g)) x = Some (EffectTimerV T C E)
        \<longrightarrow> C \<noteq> EffectTimer (comps g)"
    and timer: "component_get (world g) (EffectTimer (comps g)) t = Some (EffectTimerV T C E)"
  shows "\<exists>g'. effectsSystem now g = Inr g' \<and>
     (E < now \<longrightarrow> t \<notin> set (entities (world g')) \<and> \<not> component_has (world g') C T) \<and>
     (now \<le> E \<longrightarrow> t \<in> set (entities (world g')) \<and>
        component_get (world g') (EffectTimer (comps g)) t = Some (EffectTimerV T C E)) \<and>
     (component_has (world g') C T \<longleftrightarrow>
        component_has (world g) C T \<and>
        T \<notin> expired now (world g) (EffectTimer (comps g)) timers \<and>
        (C, T) \<notin> revoked now (world g) (EffectTimer (comps g)) timers) \<and>
     (\<forall>n x. component_get (world g') n x =
        (if x \<in> expired now (world g) (EffectTimer (comps g)) timers
             \<or> (n, x) \<in> revoked now (world g) (EffectTimer (comps g)) timers
         then None else component_get (world g) n x)) \<and>
     (expired now (world g) (EffectTimer (comps g)) timers = {} \<longrightarrow> g' = g)"
proof -
  let ?W = "world g" and ?et = "EffectTimer (comps g)"
  have q: "resolve [?et] ?W = Some timers" using query by (simp add: q_timers_def)
  from timers_query [OF inv reg q]
  have dist: "distinct timers"
    and mem: "set timers = {e \<in> set (entities ?W). component_has ?W ?et e}" by simp_all
  have data: "\<forall>x\<in>set timers. component_get ?W ?et x \<noteq> None"
    using mem by (auto simp: has_iff_get)
  from expire_loop [OF inv dist data kinds, of now] obtain w' where
    run: "forEach (expireTimer now) timers g = Inr (g\<lparr>world := w'\<rparr>)"
    and ents: "entities w' = filter (\<lambda>x. x \<notin> expired now ?W ?et timers) (entities ?W)"
    and get: "\<And>n x. component_get w' n x =
       (if x \<in> expired now ?W ?et timers \<or> (n, x) \<in> revoked now ?W ?et timers
        then None else component_get ?W n x)"
    by blast
  let ?g' = "g\<lparr>world := w'\<rparr>"
  have eff: "effectsSystem now g = Inr ?g'"
    using query run by (simp add: effectsSystem_def)
  have t_ent: "t \<in> set (entities ?W)" using inv timer by (rule ecs_inv_get_entity)
  have t_in: "t \<in> set timers" using mem t_ent timer by (simp add: has_iff_get)
  have late: "t \<notin> set (entities w') \<and> \<not> component_has w' C T" if "E < now"
  proof -
    have "t \<in> expired now ?W ?et timers" using t_in timer that by (auto simp: expired_def)
    moreover have "(C, T) \<in> revoked now ?W ?et timers"
      using t_in timer that by (auto simp: revoked_def)
    ultimately show ?thesis by (simp add: ents get has_iff_get)
  qed
  have early: "t \<in> set (entities w') \<and> component_get w' ?et t = Some (EffectTimerV T C E)"
    if "now \<le> E"
  proof -
    have "t \<notin> expired now ?W ?et timers" using timer that by (auto simp: expired_def)
    moreover have "(?et, t) \<notin> revoked now ?W ?et timers"
      using kinds by (auto simp: revoked_def)
    ultimately show ?thesis using t_ent timer by (simp add: ents get)
  qed
  have idle: "?g' = g" if "expired now ?W ?et timers = {}"
  proof -
    have "forEach (expireTimer now) timers g = Inr g" using data that by (rule expire_idle)
    with run show ?thesis by simp
  qed
  have held: "component_has w' C T \<longleftrightarrow>
      component_has ?W C T \<and> T \<notin> expired now ?W ?et timers \<and> (C, T) \<notin> revoked now ?W ?et timers"
    by (simp add: has_iff_get get)
  show ?thesis
    using eff late early held get idle by (intro exI [of _ ?g']) simp
qed

text \<open>
  A store after contact damage: the player (entity 1) holds the invulnerability shield and
  the timer entity 2 is to revoke it at time 1000.
\<close>

definition timer_world :: "compval ecs" where
  "timer_world =
     run_ops
       (setup_ops @
        [AddEntity, AddComponent ''c3'' 1 Tag, AddComponent ''c0'' 1 (Vec3 0 1.2 0),
         AddComponent ''c1'' 1 (Vec3 0 0 0), AddComponent ''c19'' 1 Tag,
         AddEntity, AddComponent ''c17'' 2 (EffectTimerV 1 ''c19'' 1000)])
       new_ecs"

definition timer_game :: game where
  "timer_game =
     \<lparr>world = timer_world, comps = game_components, gameState = new_game_state,
      state_gameState = Playing, screenShake = 0, timeouts = [], played = [],
      frameRequested = True\<rparr>"

lemma timer_world_inv: "ecs_inv timer_world"
proof -
  have "valid_ops (new_ecs :: compval ecs)
       (setup_ops @
        [AddEntity, AddComponent ''c3'' 1 Tag, AddComponent ''c0'' 1 (Vec3 0 1.2 0),
         AddComponent ''c1'' 1 (Vec3 0 0 0), AddComponent ''c19'' 1 Tag,
         AddEntity, AddComponent ''c17'' 2 (EffectTimerV 1 ''c19'' 1000)])"
    by code_simp
  with ecs_inv_new show ?thesis unfolding timer_world_def by (rule ecs_inv_run_ops)
qed

lemma timer_world_facts:
  "resolve [''c17''] timer_world = Some [2]"
  "component_get timer_world ''c17'' 2 = Some (EffectTimerV 1 ''c19'' 1000)"
  "component_has timer_world ''c19'' 1"
  "entities timer_world = [1, 2]"
  "''c17'' \<in> registered timer_world"
  by code_simp+

lemma timer_game_simps:
  "world timer_game = timer_world" "EffectTimer (comps timer_game) = ''c17''"
  "q_timers (comps timer_game) = [''c17'']"
  by (simp_all add: timer_game_def game_components_def q_timers_def)

text \<open>
  A store in which two timers name the same target and kind: the player was granted the
  shield by contact damage, to be revoked at time 2000 by the timer entity 2, and picked up a
  shield power-up while it lasted, to be revoked at time 9000 by the timer entity 3.
\<close>

definition stacked_world :: "compval ecs" where
  "stacked_world =
     run_ops
       (setup_ops @
        [AddEntity, AddComponent ''c3'' 1 Tag, AddComponent ''c0'' 1 (Vec3 0 1.2 0),
         AddComponent ''c1'' 1 (Vec3 0 0 0), AddComponent ''c19'' 1 Tag,
         AddEntity, AddComponent ''c17'' 2 (EffectTimerV 1 ''c19'' 2000),
         AddComponent ''c19'' 1 Tag,
         AddEntity, AddComponent ''c17'' 3 (EffectTimerV 1 ''c19'' 9000)])
       new_ecs"

definition stacked_game :: game where
  "stacked_game =
     \<lparr>world = stacked_world, comps = game_components, gameState = new_game_state,
      state_gameState = Playing, screenShake = 0, timeouts = [], played = [],
      frameRequested = True\<rparr>"

lemma stacked_world_inv: "ecs_inv stacked_world"
proof -
  have "valid_ops (new_ecs :: compval ecs)
       (setup_ops @
        [AddEntity, AddComponent ''c3'' 1 Tag, AddComponent ''c0'' 1 (Vec3 0 1.2 0),
         AddComponent ''c1'' 1 (Vec3 0 0 0), AddComponent ''c19'' 1 Tag,
         AddEntity, AddComponent ''c17'' 2 (EffectTimerV 1 ''c19'' 2000),
         AddComponent ''c19'' 1 Tag,
         AddEntity, AddComponent ''c17'' 3 (EffectTimerV 1 ''c19'' 9000)])"
    by code_simp
  with ecs_inv_new show ?thesis unfolding stacked_world_def by (rule ecs_inv_run_ops)
qed

lemma stacked_world_facts:
  "resolve [''c17''] stacked_world = Some [2, 3]"
  "component_get stacked_world ''c17'' 2 = Some (EffectTimerV 1 ''c19'' 2000)"
  "component_get stacked_world ''c17'' 3 = Some (EffectTimerV 1 ''c19'' 9000)"
  "component_has stacked_world ''c19'' 1"
  by code_simp+

lemma stacked_game_simps:
  "world stacked_game = stacked_world" "EffectTimer (comps stacked_game) = ''c17''"
  "q_timers (comps stacked_game) = [''c17'']"
  by (simp_all add: stacked_game_def game_components_def q_timers_def)

text \<open>
  C3 (as stated, refuted).  At the tick whose time equals the expiration time, 1000, the
  expiry step leaves the game unchanged: the timer entity 2 still exists and the player still
  holds the shield.  And where two timers name the same target and kind, the step at time
  2001 takes the shield from the player although the timer entity 3, with the expiration
  time 9000, is still in place.
\<close>

theorem expiry_at_expiration_counterexample:
  "effectsSystem 1000 timer_game = Inr timer_game \<and>
   component_get (world timer_game) (EffectTimer (comps timer_game)) 2
     = Some (EffectTimerV 1 ''c19'' 1000) \<and>
   2 \<in> set (entities (world timer_game)) \<and>
   component_has (world timer_game) ''c19'' 1 \<and>
   component_has (world stacked_game) ''c19'' 1 \<and>
   (\<exists>g'. effectsSystem 2001 stacked_game = Inr g' \<and>
      component_get (world g') (EffectTimer (comps stacked_game)) 3
        = Some (EffectTimerV 1 ''c19'' 9000) \<and>
      \<not> component_has (world g') ''c19'' 1)"
proof -
  have "expired 1000 timer_world ''c17'' [2] = {}"
    by (auto simp: expired_def timer_world_facts)
  moreover have "\<forall>t\<in>set [2]. component_get (world timer_game) (EffectTimer (comps timer_game)) t \<noteq> None"
    by (simp add: timer_game_simps timer_world_facts)
  ultimately have "forEach (expireTimer 1000) [2] timer_game = Inr timer_game"
    by (intro expire_idle) (simp_all add: timer_game_simps)
  then have "effectsSystem 1000 timer_game = Inr timer_game"
    by (simp add: effectsSystem_def timer_game_simps timer_world_facts)
  then have first: "effectsSystem 1000 timer_game = Inr timer_game \<and>
     component_get (world timer_game) (EffectTimer (comps timer_game)) 2
       = Some (EffectTimerV 1 ''c19'' 1000) \<and>
     2 \<in> set (entities (world timer_game)) \<and>
     component_has (world timer_game) ''c19'' 1"
    by (simp add: timer_game_simps timer_world_facts del: One_nat_def)
  let ?W = "world stacked_game" and ?et = "EffectTimer (comps stacked_game)"
  have inv: "ecs_inv ?W" by (simp add: stacked_game_simps stacked_world_inv)
  have dist: "distinct [2, 3 :: nat]" by simp
  have data: "\<forall>t\<in>set [2, 3]. component_get ?W ?et t \<noteq> None"
    by (simp add: stacked_game_simps stacked_world_facts)
  have kinds: "\<forall>t\<in>set [2, 3]. \<forall>T C E. component_get ?W ?et t = Some (EffectTimerV T C E)
      \<longrightarrow> C \<noteq> ?et"
    by (simp add: stacked_game_simps stacked_world_facts)
  from expire_loop [OF inv dist data kinds, of 2001] obtain w' where
    run: "forEach (expireTimer 2001) [2, 3] stacked_game = Inr (stacked_game\<lparr>world := w'\<rparr>)"
    and get: "\<And>n x. component_get w' n x =
       (if x \<in> expired 2001 ?W ?et [2, 3] \<or> (n, x) \<in> revoked 2001 ?W ?et [2, 3]
        then None else component_get ?W n x)"
    by blast
  have e: "expired 2001 ?W ?et [2, 3] = {2}"
    by (auto simp: expired_def stacked_game_simps stacked_world_facts)
  have r: "revoked 2001 ?W ?et [2, 3] = {(''c19'', 1)}"
    by (auto simp: revoked_def stacked_game_simps stacked_world_facts)
  have eff: "effectsSystem 2001 stacked_game = Inr (stacked_game\<lparr>world := w'\<rparr>)"
    using run by (simp add: effectsSystem_def stacked_game_simps stacked_world_facts)
  have kept: "component_get w' ?et 3 = Some (EffectTimerV 1 ''c19'' 9000)"
    unfolding get e r by (simp add: stacked_game_simps stacked_world_facts)
  have gone: "\<not> component_has w' ''c19'' 1"
    unfolding has_iff_get get e r by simp
  have before: "component_has ?W ''c19'' 1"
    by (simp add: stacked_game_simps stacked_world_facts del: One_nat_def)
  have "\<exists>g'. effectsSystem 2001 stacked_game = Inr g' \<and>
      component_get (world g') ?et 3 = Some (EffectTimerV 1 ''c19'' 9000) \<and>
      \<not> component_has (world g') ''c19'' 1"
    using eff kept gone by (intro exI [of _ "stacked_game\<lparr>world := w'\<rparr>"]) simp
  with first before show ?thesis by blast
qed

text \<open>
  The hypotheses of C3 hold in that game for its only timer, which names the shield and not
  the EffectTimer kind; one millisecond after the expiration the timer is gone and the player
  no longer holds the shield.
\<close>

theorem effect_timer_expiry_witness:
  "ecs_inv (world timer_game) \<and>
   EffectTimer (comps timer_game) \<in> registered (world timer_game) \<and>
   resolve (q_timers (comps timer_game)) (world timer_game) = Some [2] \<and>
   component_get (world timer_game) (EffectTimer (comps timer_game)) 2
     = Some (EffectTimerV 1 ''c19'' 1000) \<and>
   (\<exists>g'. effectsSystem 1001 timer_game = Inr g' \<and>
     2 \<notin> set (entities (world g')) \<and> \<not> component_has (world g') ''c19'' 1)"
proof -
  have h1: "ecs_inv (world timer_game)"
    by (simp add: timer_game_simps timer_world_inv)
  have h2: "EffectTimer (comps timer_game) \<in> registered (world timer_game)"
    by (simp add: timer_game_simps timer_world_facts)
  have h3: "resolve (q_timers (comps timer_game)) (world timer_game) = Some [2]"
    by (simp add: timer_game_simps timer_world_facts)
  have h4: "\<forall>x\<in>set [2]. \<forall>T C E.
        component_get (world timer_game) (EffectTimer (comps timer_game)) x = Some (EffectTimerV T C E)
        \<longrightarrow> C \<noteq> EffectTimer (comps timer_game)"
    by (simp add: timer_game_simps timer_world_facts)
  have h5: "component_get (world timer_game) (EffectTimer (comps timer_game)) 2
     = Some (EffectTimerV 1 ''c19'' 1000)"
    by (simp add: timer_game_simps timer_world_facts)
  from effect_timer_expiry [OF h1 h2 h3 h4 h5, of 1001]
  have "\<exists>g'. effectsSystem 1001 timer_game = Inr g' \<and>
     2 \<notin> set (entities (world g')) \<and> \<not> component_has (world g') ''c19'' 1"
    by auto
  with h1 h2 h3 h5 show ?thesis by blast
qed

lemma random_floor_range:
  assumes "0 \<le> r" and "r < 1" and "0 < n"
  shows "0 \<le> random_floor r n \<and> random_floor r n < n"
proof -
  have "0 \<le> r * of_int n" using assms by simp
  then have lo: "0 \<le> \<lfloor>r * of_int n\<rfloor>" by simp
  have "r * of_int n < of_int n" using assms by simp
  then have "\<lfloor>r * of_int n\<rfloor> < n" by (simp add: floor_less_iff)
  with lo show ?thesis by (simp add: random_floor_def)
qed

lemma length_grid_set [simp]: "length (grid_set maze x y v) = length maze"
  by (simp add: grid_set_def)

lemma length_carve_to [simp]: "length (carve_to maze cell chosen) = length maze"
  by (simp add: carve_to_def Let_def)

lemma carve_returns:
  assumes "\<forall>k. 0 \<le> rng k \<and> rng k < 1"
  shows "\<exists>m k'. carve rng k width height maze stack = Inr (m, k') \<and> length m = length maze"
  using assms
proof (induction rng k width height maze stack rule: carve.induct)
  case (1 rng k width height maze)
  show ?case by simp
next
  case (2 rng k width height maze cell rest)
  let ?ns = "neighbours_of width height maze cell"
  show ?case
  proof (cases "?ns = []")
    case True
    with "2.IH"(2) [OF refl] "2.prems" show ?thesis by simp
  next
    case False
    let ?i = "random_floor (rng k) (int (length ?ns))"
    have range: "0 \<le> ?i \<and> ?i < int (length ?ns)"
      using "2.prems" False by (intro random_floor_range) auto
    then have ok: "0 \<le> ?i \<and> nat ?i < length ?ns" by auto
    from "2.IH"(1) [OF refl False refl ok "2.prems"]
    obtain m k' where
      "carve rng (k + 1) width height (carve_to maze cell (?ns ! nat ?i)) (fst (?ns ! nat ?i) # cell # rest)
         = Inr (m, k')"
      and "length m = length (carve_to maze cell (?ns ! nat ?i))"
      by blast
    with False ok show ?thesis by (simp add: Let_def)
  qed
qed

lemma opening_row:
  assumes rng: "\<forall>k. 0 \<le> rng k \<and> rng k < 1" and h: "3 \<le> height"
  shows "0 \<le> 2 + random_floor (rng j) (height - 4) \<and> 2 + random_floor (rng j) (height - 4) < height"
proof (cases "height = 3")
  case True
  have "- 1 \<le> rng j * (- 1)" "rng j * (- 1) \<le> 0" using rng by (simp_all add: less_imp_le)
  then have "- 1 \<le> \<lfloor>rng j * (- 1)\<rfloor> \<and> \<lfloor>rng j * (- 1)\<rfloor> \<le> 0"
    by (simp add: le_floor_iff floor_le_iff)
  with True show ?thesis by (simp add: random_floor_def)
next
  case False
  show ?thesis
  proof (cases "height = 4")
    case True
    then show ?thesis by (simp add: random_floor_def)
  next
    case False
    with \<open>height \<noteq> 3\<close> h have "0 < height - 4" by simp
    with rng have "0 \<le> random_floor (rng j) (height - 4)
        \<and> random_floor (rng j) (height - 4) < height - 4"
      by (intro random_floor_range) auto
    then show ?thesis by simp
  qed
qed

lemma write_cell_returns:
  "0 \<le> y \<Longrightarrow> y < int (length maze) \<Longrightarrow>
   \<exists>m. write_cell maze x y v = Inr m \<and> length m = length maze"
  by (auto simp: write_cell_def)

lemma punch_step_returns:
  assumes rng: "\<forall>k. 0 \<le> rng k \<and> rng k < 1" and h: "3 \<le> height"
    and len: "int (length maze) = height"
  shows "\<exists>m. punch_step rng k width height maze = Inr m \<and> length m = length maze"
proof -
  define x where "x = 2 + random_floor (rng k) (width - 4)"
  define y where "y = 2 + random_floor (rng (k + 1)) (height - 4)"
  have y: "0 \<le> y" "y < int (length maze)"
    using opening_row [OF rng h, of "k + 1"] len by (simp_all add: y_def)
  from write_cell_returns [OF y] obtain m where
    m: "write_cell maze x y 0 = Inr m" "length m = length maze" by blast
  have unfold: "punch_step rng k width height maze =
     (case (if js_rem x 2 = 0 \<and> js_rem y 2 = 1 then write_cell maze x y 0 else Inr maze) of
        Inl e \<Rightarrow> Inl e
      | Inr m1 \<Rightarrow> (if js_rem x 2 = 1 \<and> js_rem y 2 = 0 then write_cell m1 x y 0 else Inr m1))"
    unfolding punch_step_def x_def y_def Let_def ..
  show ?thesis
    unfolding unfold using m by auto
qed

lemma punch_returns:
  assumes rng: "\<forall>k. 0 \<le> rng k \<and> rng k < 1" and h: "3 \<le> height" and len: "int (length maze) = height"
  shows "\<exists>m. punch rng k width height n maze = Inr m"
  using len
proof (induction n arbitrary: k maze)
  case 0
  show ?case by simp
next
  case (Suc n)
  from punch_step_returns [OF rng h Suc.prems] obtain m where
    m: "punch_step rng k width height maze = Inr m" "length m = length maze" by blast
  then have "int (length m) = height" using Suc.prems by simp
  from Suc.IH [OF this] obtain m' where "punch rng (k + 2) width height n m = Inr m'" by blast
  with m show ?case by simp
qed

lemma length_initial_maze [simp]: "length (initial_maze width height) = height"
  by (simp add: initial_maze_def)

lemma mazeSize_odd:
  assumes "0 \<le> lvl"
  shows "\<exists>n. mazeSize lvl = of_nat n \<and> odd n \<and> 31 \<le> n \<and> n \<le> 71"
proof -
  define j where "j = nat \<lfloor>lvl / 2\<rfloor>"
  have "0 \<le> \<lfloor>lvl / 2\<rfloor>" using assms by simp
  then have fl: "\<lfloor>lvl / 2\<rfloor> = int j" by (simp add: j_def)
  define n where "n = min (31 + 4 * j) 71"
  have "mazeSize lvl = of_nat n"
    unfolding mazeSize_def fl n_def by (simp add: min_def)
  moreover have "odd n" unfolding n_def min_def by simp
  moreover have "31 \<le> n" "n \<le> 71" unfolding n_def by simp_all
  ultimately show ?thesis by blast
qed

text \<open>
  C5 (as stated, refuted).  For the even dimensions 4 by 4 maze generation returns a grid
  and no error.
\<close>

theorem even_size_accepted_counterexample:
  "generateMaze (\<lambda>k. 0) 4 4 =
     Inr [[Some 1, Some 1, Some 1, Some 1], [Some 1, Some 0, Some 1, Some 1],
          [Some 1, Some 1, Some 1, Some 1], [Some 1, Some 1, Some 1, Some 1]]"
  by code_simp

text \<open>
  C5 (amended).  Maze generation does not check its dimensions and has no
  InvalidConfiguration error: for every width and every height of at least 3, even or small
  ones included, it returns a grid.  The level-lifecycle caller requests only the size
  \<open>min(31 + 4 * floor(level / 2), 71)\<close>, which for every level from 0 on is an odd whole number
  between 31 and 71.
\<close>

theorem maze_dimensions_unchecked:
  assumes rng: "\<forall>k. 0 \<le> rng k \<and> rng k < 1" and height: "3 \<le> height" and lvl: "0 \<le> lvl"
  shows "(\<exists>maze. generateMaze rng width height = Inr maze) \<and>
         (\<exists>n. mazeSize lvl = of_nat n \<and> odd n \<and> 31 \<le> n \<and> n \<le> 71)"
proof -
  from carve_returns [OF rng, of 0 "int width" "int height" "initial_maze width height" "[(1, 1)]"]
  obtain m k' where c: "carve rng 0 (int width) (int height) (initial_maze width height) [(1, 1)]
      = Inr (m, k')" and len: "length m = height"
    by auto
  have "\<exists>maze. punch rng k' (int width) (int height) (nat \<lfloor>real width * real height * 0.003\<rfloor>) m
      = Inr maze"
    using rng by (rule punch_returns) (use height len in simp_all)
  then have "\<exists>maze. generateMaze rng width height = Inr maze"
    using height c by (simp add: generateMaze_def carved_maze_def)
  with mazeSize_odd [OF lvl] show ?thesis by blast
qed

text \<open>The hypotheses of C5 hold for a constant random source, the size 4 by 4 and level 1.\<close>

theorem maze_dimensions_unchecked_witness:
  "(\<exists>maze. generateMaze (\<lambda>k. 0) 4 4 = Inr maze) \<and>
   (\<exists>n. mazeSize 1 = of_nat n \<and> odd n \<and> 31 \<le> n \<and> n \<le> 71)"
  using maze_dimensions_unchecked [of "\<lambda>k. 0" 4 1 4] by simp

lemma closed_relax [simp]: "closed (relax maze goal cur nb st) = closed st"
  by (simp add: relax_def Let_def)

lemma closed_fold_relax [simp]: "closed (fold (relax maze goal cur) ns st) = closed st"
  by (induction ns arbitrary: st) simp_all

lemma closed_astar_body: "closed (astar_body maze goal st) = insert (current_of st) (closed st)"
  by (simp add: astar_body_def pop_state_def)

lemma current_of_in_open: "openList st \<noteq> [] \<Longrightarrow> current_of st \<in> set (openList st)"
proof -
  assume "openList st \<noteq> []"
  then have "sort_key (score_of (fScore st)) (openList st) \<noteq> []"
    by (metis length_sort length_0_conv)
  then have "hd (sort_key (score_of (fScore st)) (openList st))
      \<in> set (sort_key (score_of (fScore st)) (openList st))"
    by (rule hd_in_set)
  then show ?thesis by (simp add: current_of_def)
qed

lemma current_of_least:
  assumes "x \<in> set (openList st)"
  shows "score_of (fScore st) (current_of st) \<le> score_of (fScore st) x"
proof -
  let ?f = "score_of (fScore st)" and ?xs = "sort_key (score_of (fScore st)) (openList st)"
  have ne: "?xs \<noteq> []" using assms by (metis empty_iff empty_set set_sort)
  have sorted: "sorted (map ?f ?xs)" by (rule sorted_sort_key)
  have x: "x \<in> set ?xs" using assms by simp
  obtain y ys where ys: "?xs = y # ys" using ne by (cases ?xs) auto
  then have "\<forall>z\<in>set ys. ?f y \<le> ?f z" using sorted by simp
  with x ys have "?f y \<le> ?f x" by auto
  then show ?thesis by (simp add: current_of_def ys)
qed

lemma open_pop_state:
  assumes "distinct (openList st)" and "openList st \<noteq> []"
  shows "distinct (openList (pop_state st))"
    and "set (openList (pop_state st)) = set (openList st) - {current_of st}"
proof -
  let ?xs = "sort_key (score_of (fScore st)) (openList st)"
  have ne: "?xs \<noteq> []" using assms(2) by (metis length_sort length_0_conv)
  then obtain y ys where ys: "?xs = y # ys" by (cases ?xs) auto
  have d: "distinct ?xs" using assms(1) by simp
  have s: "set ?xs = set (openList st)" by simp
  show "distinct (openList (pop_state st))"
    using d by (simp add: pop_state_def ys)
  show "set (openList (pop_state st)) = set (openList st) - {current_of st}"
    using d s [symmetric] by (auto simp: pop_state_def current_of_def ys)
qed

text \<open>
  The rule for the loop: an invariant that keeps the open list inside a finite set and
  apart from the closed set is carried to the state in which the loop returns.
\<close>

lemma astar_loop_rule:
  assumes init: "Inv st"
    and step: "\<And>s. Inv s \<Longrightarrow> openList s \<noteq> [] \<Longrightarrow> current_of s \<noteq> goal
                 \<Longrightarrow> Inv (astar_body maze goal s)"
    and bound: "\<And>s. Inv s \<Longrightarrow> set (openList s) \<subseteq> U - closed s"
    and fin: "finite U"
  shows "\<exists>s'. Inv s' \<and>
     ((openList s' = [] \<and> astar_loop maze goal st = Some None) \<or>
      (openList s' \<noteq> [] \<and> current_of s' = goal \<and>
       astar_loop maze goal st = map_option Some (reconstruct (cameFrom s') goal [])))"
  using init
proof (induction "card (U - closed st)" arbitrary: st rule: less_induct)
  case less
  show ?case
  proof (cases "openList st = []")
    case True
    then have "astar_loop maze goal st = Some None" by (subst astar_loop.simps) simp
    with True less.prems show ?thesis by blast
  next
    case False
    show ?thesis
    proof (cases "current_of st = goal")
      case True
      with False have "astar_loop maze goal st = map_option Some (reconstruct (cameFrom st) goal [])"
        by (subst astar_loop.simps) simp
      with True False less.prems show ?thesis by blast
    next
      case ne: False
      let ?s1 = "astar_body maze goal st"
      have inv1: "Inv ?s1" using less.prems False ne by (rule step)
      have "current_of st \<in> U - closed st"
        using bound [OF less.prems] current_of_in_open [OF False] by blast
      then have "U - closed ?s1 \<subset> U - closed st"
        unfolding closed_astar_body by blast
      moreover have "finite (U - closed st)" using fin by simp
      ultimately have "card (U - closed ?s1) < card (U - closed st)"
        by (rule psubset_card_mono [rotated])
      from less.hyps [OF this inv1] obtain s' where
        s': "Inv s'" "(openList s' = [] \<and> astar_loop maze goal ?s1 = Some None) \<or>
          (openList s' \<noteq> [] \<and> current_of s' = goal \<and>
           astar_loop maze goal ?s1 = map_option Some (reconstruct (cameFrom s') goal []))"
        by blast
      have "astar_loop maze goal st = astar_loop maze goal ?s1"
        using False ne by (subst astar_loop.simps) simp
      with s' show ?thesis by auto
    qed
  qed
qed

lemma finite_passable: "finite {c. passable maze c}"
proof -
  have "{c. passable maze c} \<subseteq> {0..<int (length (maze ! 0))} \<times> {0..<int (length maze)}"
    by (auto simp: passable_def)
  moreover have "finite ({0..<int (length (maze ! 0))} \<times> {0..<int (length maze)})" by simp
  ultimately show ?thesis by (rule finite_subset)
qed

lemma openList_relax:
  "openList (relax maze goal cur nb st) =
     (if passable maze nb \<and> nb \<notin> closed st \<and> nb \<notin> set (openList st) \<and>
         (gScore st nb = None \<or> score_of (gScore st) cur + 1 < score_of (gScore st) nb)
      then openList st @ [nb] else openList st)"
  by (simp add: relax_def Let_def)

text \<open>What the search needs to end without ever holding the goal.\<close>

definition search_inv :: "grid \<Rightarrow> cell \<Rightarrow> cell \<Rightarrow> astar \<Rightarrow> bool" where
  "search_inv maze start goal st \<longleftrightarrow>
     distinct (openList st) \<and> set (openList st) \<inter> closed st = {} \<and>
     set (openList st) \<subseteq> insert start {c. passable maze c} \<and> goal \<notin> set (openList st)"

lemma search_inv_relax:
  assumes "search_inv maze start goal st" and "\<not> passable maze goal"
  shows "search_inv maze start goal (relax maze goal cur nb st)"
  using assms by (auto simp: search_inv_def openList_relax)

lemma search_inv_fold_relax:
  assumes "search_inv maze start goal st" and "\<not> passable maze goal"
  shows "search_inv maze start goal (fold (relax maze goal cur) ns st)"
  using assms(1)
proof (induction ns arbitrary: st)
  case Nil
  then show ?case by simp
next
  case (Cons nb ns)
  from Cons.prems assms(2) have "search_inv maze start goal (relax maze goal cur nb st)"
    by (rule search_inv_relax)
  then show ?case using Cons.IH by simp
qed

lemma search_inv_body:
  assumes inv: "search_inv maze start goal st" and wall: "\<not> passable maze goal"
    and ne: "openList st \<noteq> []"
  shows "search_inv maze start goal (astar_body maze goal st)"
proof -
  have d: "distinct (openList st)" using inv by (simp add: search_inv_def)
  have "search_inv maze start goal (pop_state st)"
    using inv open_pop_state [OF d ne]
    by (auto simp: search_inv_def pop_state_def)
  then show ?thesis
    unfolding astar_body_def using wall by (rule search_inv_fold_relax)
qed

text \<open>
  C6 (as stated, refuted).  In the grid with the single row wall, open, the search from the
  wall cell to the open cell next to it returns the path of these two cells.
\<close>

theorem wall_start_found_counterexample:
  "grid_get [[Some 1, Some 0]] 0 0 = Some 1 \<and>
   findPath [[Some 1, Some 0]] (0, 0) (1, 0) = Some (Some [(0, 0), (1, 0)])"
  by code_simp

text \<open>A search for a wall cell other than the start ends with the open list empty.\<close>

lemma wall_goal_search:
  assumes wall: "grid_get maze (fst goal) (snd goal) = Some 1" and diff: "start \<noteq> goal"
  shows "findPath maze start goal = Some None"
proof -
  have np: "\<not> passable maze goal" using wall by (simp add: passable_def)
  let ?U = "insert start {c. passable maze c}"
  have init: "search_inv maze start goal (initial_state start goal)"
    using diff by (simp add: search_inv_def initial_state_def)
  have "\<exists>s'. search_inv maze start goal s' \<and>
     ((openList s' = [] \<and> astar_loop maze goal (initial_state start goal) = Some None) \<or>
      (openList s' \<noteq> [] \<and> current_of s' = goal \<and>
       astar_loop maze goal (initial_state start goal)
         = map_option Some (reconstruct (cameFrom s') goal [])))"
  proof (rule astar_loop_rule [where U = ?U])
    show "search_inv maze start goal (initial_state start goal)" by (rule init)
  next
    fix s assume "search_inv maze start goal s" "openList s \<noteq> []"
    with np show "search_inv maze start goal (astar_body maze goal s)"
      by (intro search_inv_body)
  next
    fix s assume "search_inv maze start goal s"
    then show "set (openList s) \<subseteq> ?U - closed s" by (auto simp: search_inv_def)
  next
    show "finite ?U" using finite_passable by simp
  qed
  then obtain s' where inv: "search_inv maze start goal s'"
    and res: "(openList s' = [] \<and> astar_loop maze goal (initial_state start goal) = Some None) \<or>
      (openList s' \<noteq> [] \<and> current_of s' = goal)"
    by blast
  have "\<not> (openList s' \<noteq> [] \<and> current_of s' = goal)"
    using inv current_of_in_open [of s'] by (auto simp: search_inv_def)
  with res show ?thesis by (simp add: findPath_def)
qed

subsection \<open>Breadth-first distance\<close>

text \<open>
  \<open>reach maze start n c\<close>: the cell \<open>c\<close> is reached from \<open>start\<close> by \<open>n\<close> moves between
  4-connected open cells, that is, it lies in layer \<open>n\<close> of a breadth-first search.  The
  breadth-first distance is the first layer in which the cell appears.
\<close>

inductive reach :: "grid \<Rightarrow> cell \<Rightarrow> nat \<Rightarrow> cell \<Rightarrow> bool" for maze start where
  reach_start: "passable maze start \<Longrightarrow> reach maze start 0 start"
| reach_step: "reach maze start n p \<Longrightarrow> q \<in> set (neighbours p) \<Longrightarrow> passable maze q
    \<Longrightarrow> reach maze start (Suc n) q"

definition connected :: "grid \<Rightarrow> cell \<Rightarrow> cell \<Rightarrow> bool" where
  "connected maze start c \<longleftrightarrow> (\<exists>n. reach maze start n c)"

definition bfs_distance :: "grid \<Rightarrow> cell \<Rightarrow> cell \<Rightarrow> nat" where
  "bfs_distance maze start c = (LEAST n. reach maze start n c)"

text \<open>A sequence of open cells in which each cell is a 4-neighbour of the one before.\<close>

fun is_path :: "grid \<Rightarrow> cell list \<Rightarrow> bool" where
  "is_path maze [] = False"
| "is_path maze [c] = passable maze c"
| "is_path maze (a # b # rest) = (passable maze a \<and> b \<in> set (neighbours a) \<and> is_path maze (b # rest))"

lemma reach_passable: "reach maze start n c \<Longrightarrow> passable maze c"
  by (induction rule: reach.induct) auto

lemma connected_passable: "connected maze start c \<Longrightarrow> passable maze c"
  by (auto simp: connected_def dest: reach_passable)

lemma reach_distance: "connected maze start c \<Longrightarrow> reach maze start (bfs_distance maze start c) c"
  unfolding connected_def bfs_distance_def by (erule exE) (rule LeastI)

lemma distance_le: "reach maze start n c \<Longrightarrow> bfs_distance maze start c \<le> n"
  unfolding bfs_distance_def by (rule Least_le)

lemma distance_start: "passable maze start \<Longrightarrow> bfs_distance maze start start = 0"
  using distance_le [OF reach_start] by simp

lemma connected_start: "passable maze start \<Longrightarrow> connected maze start start"
  unfolding connected_def by (blast intro: reach_start)

lemma connected_step:
  assumes "connected maze start p" and "q \<in> set (neighbours p)" and "passable maze q"
  shows "connected maze start q \<and> bfs_distance maze start q \<le> Suc (bfs_distance maze start p)"
proof -
  have "reach maze start (Suc (bfs_distance maze start p)) q"
    using reach_distance [OF assms(1)] assms(2,3) by (rule reach_step)
  then show ?thesis using distance_le by (auto simp: connected_def)
qed

lemma distance_predecessor:
  assumes c: "connected maze start c" and ne: "c \<noteq> start"
  shows "\<exists>p. connected maze start p \<and> c \<in> set (neighbours p) \<and>
     bfs_distance maze start c = Suc (bfs_distance maze start p)"
proof -
  from reach_distance [OF c] show ?thesis
  proof (cases rule: reach.cases)
    case reach_start
    with ne show ?thesis by simp
  next
    case (reach_step n p)
    have cp: "connected maze start p" using reach_step(2) by (auto simp: connected_def)
    have le: "bfs_distance maze start p \<le> n" using reach_step(2) by (rule distance_le)
    have "bfs_distance maze start c \<le> Suc (bfs_distance maze start p)"
      using connected_step [OF cp reach_step(3,4)] by simp
    with le reach_step(1) have "bfs_distance maze start c = Suc (bfs_distance maze start p)"
      by simp
    with cp reach_step(3) show ?thesis by blast
  qed
qed

lemma heuristic_neighbour:
  "q \<in> set (neighbours p) \<Longrightarrow> heuristic p goal \<le> heuristic q goal + 1"
  by (auto simp: neighbours_def heuristic_def)

lemma is_path_snoc_iff:
  "w \<noteq> [] \<Longrightarrow>
   is_path maze (w @ [c]) \<longleftrightarrow>
     is_path maze w \<and> c \<in> set (neighbours (last w)) \<and> passable maze c"
proof (induction maze w rule: is_path.induct)
  case (1 maze)
  then show ?case by simp
next
  case (2 maze a)
  show ?case by auto
next
  case (3 maze a b rest)
  then have "is_path maze ((b # rest) @ [c]) \<longleftrightarrow>
      is_path maze (b # rest) \<and> c \<in> set (neighbours (last (b # rest))) \<and> passable maze c"
    by simp
  then show ?case by auto
qed

lemma is_path_snoc:
  "is_path maze w \<Longrightarrow> c \<in> set (neighbours (last w)) \<Longrightarrow> passable maze c
   \<Longrightarrow> is_path maze (w @ [c])"
  by (cases "w = []") (simp_all add: is_path_snoc_iff)

lemma is_path_reach:
  "is_path maze w \<Longrightarrow> reach maze (hd w) (length w - 1) (last w)"
proof (induction w rule: rev_induct)
  case Nil
  then show ?case by simp
next
  case (snoc c w)
  show ?case
  proof (cases "w = []")
    case True
    with snoc.prems show ?thesis by (simp add: reach_start)
  next
    case False
    with snoc.prems have parts: "is_path maze w" "c \<in> set (neighbours (last w))" "passable maze c"
      by (simp_all add: is_path_snoc_iff)
    from snoc.IH [OF parts(1)] parts(2,3)
    have "reach maze (hd w) (Suc (length w - 1)) c" by (rule reach_step)
    with False show ?thesis by simp
  qed
qed

subsection \<open>The invariant of the search\<close>

text \<open>
  \<open>X\<close> is the set of closed nodes all of whose open neighbours have been looked at: every
  closed node at the head of the loop, and every closed node but \<open>current\<close> while the
  neighbours of \<open>current\<close> are being processed.
\<close>

definition core_inv :: "grid \<Rightarrow> cell \<Rightarrow> cell \<Rightarrow> cell set \<Rightarrow> astar \<Rightarrow> bool" where
  "core_inv maze start goal X st \<longleftrightarrow>
     distinct (openList st) \<and>
     set (openList st) \<inter> closed st = {} \<and>
     dom (gScore st) = set (openList st) \<union> closed st \<and>
     (\<forall>c g. gScore st c = Some g \<longrightarrow>
        connected maze start c \<and> int (bfs_distance maze start c) \<le> g \<and>
        fScore st c = Some (g + heuristic c goal)) \<and>
     (\<forall>c\<in>closed st. gScore st c = Some (int (bfs_distance maze start c))) \<and>
     (\<forall>u\<in>X. \<forall>w\<in>set (neighbours u). passable maze w \<longrightarrow>
        (\<exists>g. gScore st w = Some g \<and> g \<le> int (bfs_distance maze start u) + 1)) \<and>
     gScore st start = Some 0 \<and> cameFrom st start = None \<and>
     (\<forall>c g. gScore st c = Some g \<longrightarrow> c \<noteq> start \<longrightarrow>
        (\<exists>p gp. cameFrom st c = Some p \<and> p \<in> closed st \<and> c \<in> set (neighbours p) \<and>
           gScore st p = Some gp \<and> g = gp + 1)) \<and>
     goal \<notin> closed st"

lemma core_invD:
  assumes "core_inv maze start goal X st"
  shows "distinct (openList st)"
    and "set (openList st) \<inter> closed st = {}"
    and "dom (gScore st) = set (openList st) \<union> closed st"
    and "\<And>c g. gScore st c = Some g \<Longrightarrow> connected maze start c"
    and "\<And>c g. gScore st c = Some g \<Longrightarrow> int (bfs_distance maze start c) \<le> g"
    and "\<And>c g. gScore st c = Some g \<Longrightarrow> fScore st c = Some (g + heuristic c goal)"
    and "\<And>c. c \<in> closed st \<Longrightarrow> gScore st c = Some (int (bfs_distance maze start c))"
    and "\<And>u w. u \<in> X \<Longrightarrow> w \<in> set (neighbours u) \<Longrightarrow> passable maze w \<Longrightarrow>
           \<exists>g. gScore st w = Some g \<and> g \<le> int (bfs_distance maze start u) + 1"
    and "gScore st start = Some 0"
    and "cameFrom st start = None"
    and "\<And>c g. gScore st c = Some g \<Longrightarrow> c \<noteq> start \<Longrightarrow>
           \<exists>p gp. cameFrom st c = Some p \<and> p \<in> closed st \<and> c \<in> set (neighbours p) \<and>
             gScore st p = Some gp \<and> g = gp + 1"
    and "goal \<notin> closed st"
  using assms unfolding core_inv_def by blast+

definition astar_inv :: "grid \<Rightarrow> cell \<Rightarrow> cell \<Rightarrow> astar \<Rightarrow> bool" where
  "astar_inv maze start goal st \<longleftrightarrow>
     core_inv maze start goal (closed st) st \<and>
     (start \<in> closed st \<or> openList st = [start])"

text \<open>
  Every connected cell is closed, or some open node with the right g-score has an f-score
  that does not exceed the cell's distance plus heuristic.
\<close>

lemma frontier:
  assumes inv: "core_inv maze start goal (closed st) st"
    and c: "connected maze start c"
  shows "c \<in> closed st \<or>
     (\<exists>x\<in>set (openList st). gScore st x = Some (int (bfs_distance maze start x)) \<and>
        int (bfs_distance maze start x) + heuristic x goal
          \<le> int (bfs_distance maze start c) + heuristic c goal)"
  using c
proof (induction "bfs_distance maze start c" arbitrary: c rule: less_induct)
  case less
  note D = core_invD [OF inv]
  show ?case
  proof (cases "c = start")
    case True
    have "passable maze start" using less.prems True by (simp add: connected_passable)
    then have d0: "bfs_distance maze start start = 0" by (rule distance_start)
    have "start \<in> dom (gScore st)" using D(9) by auto
    then have "start \<in> set (openList st) \<union> closed st" using D(3) by simp
    then show ?thesis
    proof
      assume "start \<in> set (openList st)"
      moreover have "gScore st start = Some (int (bfs_distance maze start start))"
        using D(9) d0 by simp
      ultimately show ?thesis unfolding True by (intro disjI2 bexI [of _ start]) simp_all
    next
      assume "start \<in> closed st"
      then show ?thesis using True by simp
    qed
  next
    case False
    from distance_predecessor [OF less.prems False] obtain p where
      p: "connected maze start p" "c \<in> set (neighbours p)"
        "bfs_distance maze start c = Suc (bfs_distance maze start p)"
      by blast
    have pc: "passable maze c" using less.prems by (rule connected_passable)
    have "bfs_distance maze start p < bfs_distance maze start c" using p(3) by simp
    from less.hyps [OF this p(1)] show ?thesis
    proof
      assume "p \<in> closed st"
      from D(8) [OF this p(2) pc] obtain g where
        g: "gScore st c = Some g" "g \<le> int (bfs_distance maze start p) + 1" by blast
      have "int (bfs_distance maze start c) \<le> g" using g(1) by (rule D(5))
      with g(2) p(3) have geq: "g = int (bfs_distance maze start c)" by simp
      have "c \<in> dom (gScore st)" using g(1) by auto
      then have "c \<in> set (openList st) \<union> closed st" using D(3) by simp
      then show ?thesis using g(1) geq by auto
    next
      assume "\<exists>x\<in>set (openList st). gScore st x = Some (int (bfs_distance maze start x)) \<and>
        int (bfs_distance maze start x) + heuristic x goal
          \<le> int (bfs_distance maze start p) + heuristic p goal"
      then obtain x where x: "x \<in> set (openList st)"
        "gScore st x = Some (int (bfs_distance maze start x))"
        "int (bfs_distance maze start x) + heuristic x goal
          \<le> int (bfs_distance maze start p) + heuristic p goal"
        by blast
      have "heuristic p goal \<le> heuristic c goal + 1" using p(2) by (rule heuristic_neighbour)
      with x(3) p(3) have "int (bfs_distance maze start x) + heuristic x goal
          \<le> int (bfs_distance maze start c) + heuristic c goal"
        by simp
      with x(1,2) show ?thesis by blast
    qed
  qed
qed

text \<open>The node that is popped carries its breadth-first distance as g-score.\<close>

lemma pop_optimal:
  assumes inv: "core_inv maze start goal (closed st) st" and ne: "openList st \<noteq> []"
  shows "gScore st (current_of st) = Some (int (bfs_distance maze start (current_of st)))"
proof -
  note D = core_invD [OF inv]
  let ?cur = "current_of st"
  have cur: "?cur \<in> set (openList st)" using ne by (rule current_of_in_open)
  then have "?cur \<in> dom (gScore st)" using D(3) by simp
  then obtain g where g: "gScore st ?cur = Some g" by auto
  have lo: "int (bfs_distance maze start ?cur) \<le> g" using g by (rule D(5))
  have con: "connected maze start ?cur" using g by (rule D(4))
  have "?cur \<notin> closed st" using cur D(2) by auto
  with frontier [OF inv con] obtain x where x: "x \<in> set (openList st)"
    "gScore st x = Some (int (bfs_distance maze start x))"
    "int (bfs_distance maze start x) + heuristic x goal
      \<le> int (bfs_distance maze start ?cur) + heuristic ?cur goal"
    by blast
  have fx: "score_of (fScore st) x = int (bfs_distance maze start x) + heuristic x goal"
    using D(6) [OF x(2)] by (simp add: score_of_def)
  have fc: "score_of (fScore st) ?cur = g + heuristic ?cur goal"
    using D(6) [OF g] by (simp add: score_of_def)
  have "score_of (fScore st) ?cur \<le> score_of (fScore st) x" using x(1) by (rule current_of_least)
  with fx fc x(3) have "g \<le> int (bfs_distance maze start ?cur)" by simp
  with lo g show ?thesis by simp
qed

definition relax_inv :: "grid \<Rightarrow> cell \<Rightarrow> cell \<Rightarrow> cell \<Rightarrow> astar \<Rightarrow> bool" where
  "relax_inv maze start goal cur st \<longleftrightarrow>
     core_inv maze start goal (closed st - {cur}) st \<and> cur \<in> closed st \<and> start \<in> closed st"

lemma pop_inv:
  assumes inv: "astar_inv maze start goal st" and ne: "openList st \<noteq> []"
    and ng: "current_of st \<noteq> goal"
  shows "relax_inv maze start goal (current_of st) (pop_state st)"
proof -
  let ?cur = "current_of st" and ?s = "pop_state st"
  have core: "core_inv maze start goal (closed st) st" using inv by (simp add: astar_inv_def)
  note D = core_invD [OF core]
  have cur: "?cur \<in> set (openList st)" using ne by (rule current_of_in_open)
  have cur_nc: "?cur \<notin> closed st" using cur D(2) by auto
  have opt: "gScore st ?cur = Some (int (bfs_distance maze start ?cur))"
    using core ne by (rule pop_optimal)
  have o: "distinct (openList ?s)" "set (openList ?s) = set (openList st) - {?cur}"
    using open_pop_state [OF D(1) ne] by simp_all
  have c: "closed ?s = insert ?cur (closed st)" by (simp add: pop_state_def)
  have same: "gScore ?s = gScore st" "fScore ?s = fScore st" "cameFrom ?s = cameFrom st"
    by (simp_all add: pop_state_def)
  have X: "closed ?s - {?cur} = closed st" using cur_nc c by auto
  have "core_inv maze start goal (closed st) ?s"
    unfolding core_inv_def same o(2) c
  proof (intro conjI)
    show "distinct (openList ?s)" by (rule o(1))
    show "(set (openList st) - {?cur}) \<inter> insert ?cur (closed st) = {}" using D(2) by auto
    show "dom (gScore st) = set (openList st) - {?cur} \<union> insert ?cur (closed st)"
      using D(3) cur by auto
    show "\<forall>c g. gScore st c = Some g \<longrightarrow>
        connected maze start c \<and> int (bfs_distance maze start c) \<le> g \<and>
        fScore st c = Some (g + heuristic c goal)"
      using D(4,5,6) by blast
    show "\<forall>c\<in>insert ?cur (closed st). gScore st c = Some (int (bfs_distance maze start c))"
      using D(7) opt by auto
    show "\<forall>u\<in>closed st. \<forall>w\<in>set (neighbours u). passable maze w \<longrightarrow>
        (\<exists>g. gScore st w = Some g \<and> g \<le> int (bfs_distance maze start u) + 1)"
      using D(8) by blast
    show "gScore st start = Some 0" by (rule D(9))
    show "cameFrom st start = None" by (rule D(10))
    show "\<forall>c g. gScore st c = Some g \<longrightarrow> c \<noteq> start \<longrightarrow>
        (\<exists>p gp. cameFrom st c = Some p \<and> p \<in> insert ?cur (closed st) \<and> c \<in> set (neighbours p) \<and>
           gScore st p = Some gp \<and> g = gp + 1)"
      using D(11) by blast
    show "goal \<notin> insert ?cur (closed st)" using D(12) ng by auto
  qed
  moreover have "start \<in> closed ?s"
  proof -
    from inv have "start \<in> closed st \<or> openList st = [start]" by (simp add: astar_inv_def)
    then show ?thesis
    proof
      assume "openList st = [start]"
      then have "?cur = start" by (simp add: current_of_def)
      then show ?thesis by (simp add: c)
    qed (simp add: c)
  qed
  ultimately show ?thesis unfolding relax_inv_def X by (simp add: c)
qed

lemma relax_result:
  "relax maze goal cur nb st = st \<or>
   (passable maze nb \<and> nb \<notin> closed st \<and>
    (gScore st nb = None \<or> score_of (gScore st) cur + 1 < score_of (gScore st) nb) \<and>
    relax maze goal cur nb st =
      st\<lparr>cameFrom := (cameFrom st)(nb \<mapsto> cur),
         gScore := (gScore st)(nb \<mapsto> score_of (gScore st) cur + 1),
         fScore := (fScore st)(nb \<mapsto> score_of (gScore st) cur + 1 + heuristic nb goal),
         openList := (if nb \<in> set (openList st) then openList st else openList st @ [nb])\<rparr>)"
  by (simp add: relax_def Let_def)

lemma relax_cases:
  obtains (skip) "relax maze goal cur nb st = st"
  | (update) "passable maze nb" "nb \<notin> closed st"
      "gScore st nb = None \<or> score_of (gScore st) cur + 1 < score_of (gScore st) nb"
      "relax maze goal cur nb st =
         st\<lparr>cameFrom := (cameFrom st)(nb \<mapsto> cur),
            gScore := (gScore st)(nb \<mapsto> score_of (gScore st) cur + 1),
            fScore := (fScore st)(nb \<mapsto> score_of (gScore st) cur + 1 + heuristic nb goal),
            openList := (if nb \<in> set (openList st) then openList st else openList st @ [nb])\<rparr>"
  using relax_result [of maze goal cur nb st] by blast

lemma relax_inv_relax:
  assumes inv: "relax_inv maze start goal cur st" and nb: "nb \<in> set (neighbours cur)"
  shows "relax_inv maze start goal cur (relax maze goal cur nb st)"
proof (cases rule: relax_cases [of maze goal cur nb st])
  case skip
  with inv show ?thesis by simp
next
  case update
  let ?t = "score_of (gScore st) cur + 1"
  let ?s = "relax maze goal cur nb st"
  have core: "core_inv maze start goal (closed st - {cur}) st"
    and curc: "cur \<in> closed st" and startc: "start \<in> closed st"
    using inv by (simp_all add: relax_inv_def)
  note D = core_invD [OF core]
  have gcur: "gScore st cur = Some (int (bfs_distance maze start cur))" using curc by (rule D(7))
  then have t: "?t = int (bfs_distance maze start cur) + 1" by (simp add: score_of_def)
  have ccur: "connected maze start cur" using gcur by (rule D(4))
  have cnb: "connected maze start nb"
    and dnb: "bfs_distance maze start nb \<le> Suc (bfs_distance maze start cur)"
    using connected_step [OF ccur nb update(1)] by simp_all
  have nb_start: "nb \<noteq> start" and nb_cur: "nb \<noteq> cur" using update(2) startc curc by auto
  have G: "gScore ?s = (gScore st)(nb \<mapsto> ?t)"
    and F: "fScore ?s = (fScore st)(nb \<mapsto> ?t + heuristic nb goal)"
    and C: "cameFrom ?s = (cameFrom st)(nb \<mapsto> cur)"
    and O: "openList ?s = (if nb \<in> set (openList st) then openList st else openList st @ [nb])"
    and Cl: "closed ?s = closed st"
    unfolding update(4) by simp_all
  have lower: "?t < g" if "gScore st nb = Some g" for g
    using update(3) that by (simp add: score_of_def)
  have "core_inv maze start goal (closed st - {cur}) ?s"
    unfolding core_inv_def G F C Cl
  proof (intro conjI)
    show "distinct (openList ?s)" using D(1) by (simp add: O)
    show "set (openList ?s) \<inter> closed st = {}" using D(2) update(2) by (auto simp: O)
    show "dom ((gScore st)(nb \<mapsto> ?t)) = set (openList ?s) \<union> closed st"
      using D(3) by (auto simp: O)
    show "\<forall>c g. ((gScore st)(nb \<mapsto> ?t)) c = Some g \<longrightarrow>
        connected maze start c \<and> int (bfs_distance maze start c) \<le> g \<and>
        ((fScore st)(nb \<mapsto> ?t + heuristic nb goal)) c = Some (g + heuristic c goal)"
      using D(4,5,6) cnb dnb t by auto
    show "\<forall>c\<in>closed st. ((gScore st)(nb \<mapsto> ?t)) c = Some (int (bfs_distance maze start c))"
      using D(7) update(2) by auto
    show "\<forall>u\<in>closed st - {cur}. \<forall>w\<in>set (neighbours u). passable maze w \<longrightarrow>
        (\<exists>g. ((gScore st)(nb \<mapsto> ?t)) w = Some g \<and> g \<le> int (bfs_distance maze start u) + 1)"
    proof (intro ballI impI)
      fix u w assume u: "u \<in> closed st - {cur}" and w: "w \<in> set (neighbours u)" "passable maze w"
      from D(8) [OF u w] obtain g where g: "gScore st w = Some g"
        "g \<le> int (bfs_distance maze start u) + 1" by blast
      show "\<exists>g. ((gScore st)(nb \<mapsto> ?t)) w = Some g \<and> g \<le> int (bfs_distance maze start u) + 1"
      proof (cases "w = nb")
        case True
        with g(1) have "?t < g" by (intro lower) simp
        with g(2) True show ?thesis by simp
      next
        case False
        with g show ?thesis by simp
      qed
    qed
    show "((gScore st)(nb \<mapsto> ?t)) start = Some 0" using D(9) nb_start by simp
    show "((cameFrom st)(nb \<mapsto> cur)) start = None" using D(10) nb_start by simp
    show "\<forall>c g. ((gScore st)(nb \<mapsto> ?t)) c = Some g \<longrightarrow> c \<noteq> start \<longrightarrow>
        (\<exists>p gp. ((cameFrom st)(nb \<mapsto> cur)) c = Some p \<and> p \<in> closed st \<and> c \<in> set (neighbours p) \<and>
           ((gScore st)(nb \<mapsto> ?t)) p = Some gp \<and> g = gp + 1)"
    proof (intro allI impI)
      fix c g assume g: "((gScore st)(nb \<mapsto> ?t)) c = Some g" and cs: "c \<noteq> start"
      show "\<exists>p gp. ((cameFrom st)(nb \<mapsto> cur)) c = Some p \<and> p \<in> closed st \<and> c \<in> set (neighbours p) \<and>
           ((gScore st)(nb \<mapsto> ?t)) p = Some gp \<and> g = gp + 1"
      proof (cases "c = nb")
        case True
        with g have "g = ?t" by simp
        with True curc nb gcur nb_cur show ?thesis by (simp add: score_of_def)
      next
        case False
        with g have "gScore st c = Some g" by simp
        from D(11) [OF this cs] obtain p gp where
          p: "cameFrom st c = Some p" "p \<in> closed st" "c \<in> set (neighbours p)"
            "gScore st p = Some gp" "g = gp + 1" by blast
        have "p \<noteq> nb" using p(2) update(2) by auto
        with p False show ?thesis by simp
      qed
    qed
    show "goal \<notin> closed st" by (rule D(12))
  qed
  then show ?thesis using curc startc by (simp add: relax_inv_def Cl)
qed

text \<open>A relaxation does not raise a g-score, and it settles the neighbour it looks at.\<close>

lemma relax_mono:
  assumes "gScore st w = Some g" and "g \<le> b"
  shows "\<exists>g'. gScore (relax maze goal cur nb st) w = Some g' \<and> g' \<le> b"
proof (cases rule: relax_cases [of maze goal cur nb st])
  case skip
  with assms show ?thesis by simp
next
  case update
  show ?thesis
  proof (cases "w = nb")
    case True
    with update(3) assms(1) have "score_of (gScore st) cur + 1 < g" by (simp add: score_of_def)
    with assms(2) True show ?thesis unfolding update(4) by simp
  next
    case False
    with assms show ?thesis unfolding update(4) by simp
  qed
qed

lemma fold_relax_mono:
  assumes "gScore st w = Some g" and "g \<le> b"
  shows "\<exists>g'. gScore (fold (relax maze goal cur) ns st) w = Some g' \<and> g' \<le> b"
  using assms
proof (induction ns arbitrary: st g)
  case Nil
  then show ?case by simp
next
  case (Cons nb ns)
  from relax_mono [OF Cons.prems] obtain g' where
    "gScore (relax maze goal cur nb st) w = Some g'" "g' \<le> b" by blast
  from Cons.IH [OF this] show ?case by simp
qed

lemma relax_settles:
  assumes inv: "relax_inv maze start goal cur st" and nb: "nb \<in> set (neighbours cur)"
    and p: "passable maze nb"
  shows "\<exists>g. gScore (relax maze goal cur nb st) nb = Some g \<and>
     g \<le> int (bfs_distance maze start cur) + 1"
proof -
  have core: "core_inv maze start goal (closed st - {cur}) st" and curc: "cur \<in> closed st"
    using inv by (simp_all add: relax_inv_def)
  note D = core_invD [OF core]
  have gcur: "gScore st cur = Some (int (bfs_distance maze start cur))" using curc by (rule D(7))
  have ccur: "connected maze start cur" using gcur by (rule D(4))
  show ?thesis
  proof (cases "nb \<in> closed st")
    case True
    have "bfs_distance maze start nb \<le> Suc (bfs_distance maze start cur)"
      using connected_step [OF ccur nb p] by simp
    with True D(7) [OF True] show ?thesis by (simp add: relax_def)
  next
    case False
    show ?thesis
    proof (cases "gScore st nb")
      case None
      with False p gcur show ?thesis by (simp add: relax_def Let_def score_of_def)
    next
      case (Some g)
      with False p gcur show ?thesis by (auto simp: relax_def Let_def score_of_def)
    qed
  qed
qed

lemma fold_relax_inv:
  assumes "relax_inv maze start goal cur st" and "set ns \<subseteq> set (neighbours cur)"
  shows "relax_inv maze start goal cur (fold (relax maze goal cur) ns st) \<and>
     (\<forall>w\<in>set ns. passable maze w \<longrightarrow>
        (\<exists>g. gScore (fold (relax maze goal cur) ns st) w = Some g \<and>
           g \<le> int (bfs_distance maze start cur) + 1))"
  using assms
proof (induction ns arbitrary: st)
  case Nil
  then show ?case by simp
next
  case (Cons nb ns)
  let ?s1 = "relax maze goal cur nb st"
  have nb: "nb \<in> set (neighbours cur)" and ns: "set ns \<subseteq> set (neighbours cur)"
    using Cons.prems(2) by simp_all
  have inv1: "relax_inv maze start goal cur ?s1" using Cons.prems(1) nb by (rule relax_inv_relax)
  from Cons.IH [OF inv1 ns] have
    fin: "relax_inv maze start goal cur (fold (relax maze goal cur) ns ?s1)"
    and rest: "\<forall>w\<in>set ns. passable maze w \<longrightarrow>
        (\<exists>g. gScore (fold (relax maze goal cur) ns ?s1) w = Some g \<and>
           g \<le> int (bfs_distance maze start cur) + 1)"
    by simp_all
  have "\<exists>g. gScore (fold (relax maze goal cur) ns ?s1) nb = Some g \<and>
      g \<le> int (bfs_distance maze start cur) + 1" if "passable maze nb"
  proof -
    from relax_settles [OF Cons.prems(1) nb that] obtain g where
      "gScore ?s1 nb = Some g" "g \<le> int (bfs_distance maze start cur) + 1" by blast
    then show ?thesis by (rule fold_relax_mono)
  qed
  with fin rest show ?case by simp
qed

lemma astar_inv_body:
  assumes inv: "astar_inv maze start goal st" and ne: "openList st \<noteq> []"
    and ng: "current_of st \<noteq> goal"
  shows "astar_inv maze start goal (astar_body maze goal st)"
proof -
  let ?cur = "current_of st" and ?s = "astar_body maze goal st"
  have "relax_inv maze start goal ?cur (pop_state st)" using inv ne ng by (rule pop_inv)
  from fold_relax_inv [OF this subset_refl] have
    rinv: "relax_inv maze start goal ?cur ?s"
    and settled: "\<forall>w\<in>set (neighbours ?cur). passable maze w \<longrightarrow>
        (\<exists>g. gScore ?s w = Some g \<and> g \<le> int (bfs_distance maze start ?cur) + 1)"
    unfolding astar_body_def by simp_all
  have core: "core_inv maze start goal (closed ?s - {?cur}) ?s"
    and curc: "?cur \<in> closed ?s" and startc: "start \<in> closed ?s"
    using rinv by (simp_all add: relax_inv_def)
  note D = core_invD [OF core]
  have "core_inv maze start goal (closed ?s) ?s"
    unfolding core_inv_def
  proof (intro conjI)
    show "\<forall>u\<in>closed ?s. \<forall>w\<in>set (neighbours u). passable maze w \<longrightarrow>
        (\<exists>g. gScore ?s w = Some g \<and> g \<le> int (bfs_distance maze start u) + 1)"
    proof (intro ballI impI)
      fix u w assume u: "u \<in> closed ?s" and w: "w \<in> set (neighbours u)" "passable maze w"
      show "\<exists>g. gScore ?s w = Some g \<and> g \<le> int (bfs_distance maze start u) + 1"
      proof (cases "u = ?cur")
        case True
        with settled w show ?thesis by simp
      next
        case False
        with u have "u \<in> closed ?s - {?cur}" by simp
        from D(8) [OF this w] show ?thesis .
      qed
    qed
  qed (use D in blast)+
  with startc show ?thesis by (simp add: astar_inv_def)
qed

lemma reconstruct_path:
  assumes inv: "core_inv maze start goal X st"
  shows "gScore st c = Some g \<Longrightarrow>
     \<exists>w. reconstruct (cameFrom st) c acc = Some (w @ acc) \<and> is_path maze w \<and>
       hd w = start \<and> last w = c \<and> int (length w) = g + 1"
proof (induction "nat g" arbitrary: c g acc rule: less_induct)
  case less
  note D = core_invD [OF inv]
  have pc: "passable maze c" using D(4) [OF less.prems] by (rule connected_passable)
  show ?case
  proof (cases "c = start")
    case True
    with less.prems D(9) have "g = 0" by simp
    moreover have "reconstruct (cameFrom st) c acc = Some ([c] @ acc)"
      using True D(10) by (subst reconstruct.simps) simp
    ultimately show ?thesis using True pc by (intro exI [of _ "[c]"]) simp
  next
    case False
    from D(11) [OF less.prems False] obtain p gp where
      p: "cameFrom st c = Some p" "c \<in> set (neighbours p)" "gScore st p = Some gp" "g = gp + 1"
      by blast
    have "0 \<le> gp" using D(5) [OF p(3)] by simp
    with p(4) have "nat gp < nat g" by simp
    from less.hyps [OF this p(3), of "c # acc"] obtain w where
      w: "reconstruct (cameFrom st) p (c # acc) = Some (w @ c # acc)" "is_path maze w"
        "hd w = start" "last w = p" "int (length w) = gp + 1"
      by blast
    have wne: "w \<noteq> []" using w(2) by auto
    have "reconstruct (cameFrom st) c acc = Some ((w @ [c]) @ acc)"
      using p(1) w(1) by (subst reconstruct.simps) simp
    moreover have "is_path maze (w @ [c])" using w(2,4) p(2) pc by (intro is_path_snoc) simp_all
    moreover have "hd (w @ [c]) = start" using wne w(3) by simp
    moreover have "int (length (w @ [c])) = g + 1" using w(5) p(4) by simp
    ultimately show ?thesis by (intro exI [of _ "w @ [c]"]) simp
  qed
qed

lemma astar_inv_initial:
  assumes "passable maze start"
  shows "astar_inv maze start goal (initial_state start goal)"
proof -
  have "connected maze start start" using assms by (rule connected_start)
  moreover have "bfs_distance maze start start = 0" using assms by (rule distance_start)
  ultimately show ?thesis
    by (simp add: astar_inv_def core_inv_def initial_state_def)
qed

text \<open>
  C2.  For every grid and every pair of open cells: if the goal is connected to the start
  through 4-connected open cells, \<open>findPath\<close> returns a sequence of open cells from the
  start to the goal inclusive, each a 4-neighbour of the one before, whose number of moves
  is the breadth-first distance, so that no such sequence is shorter; if the goal is not
  connected to the start, \<open>findPath\<close> returns NotFound.
\<close>

theorem findPath_optimal:
  assumes start: "passable maze start" and goal: "passable maze goal"
  shows "(connected maze start goal \<longrightarrow>
          (\<exists>path. findPath maze start goal = Some (Some path) \<and> is_path maze path \<and>
             hd path = start \<and> last path = goal \<and>
             length path = Suc (bfs_distance maze start goal) \<and>
             (\<forall>other. is_path maze other \<and> hd other = start \<and> last other = goal
                \<longrightarrow> length path \<le> length other))) \<and>
         (\<not> connected maze start goal \<longrightarrow> findPath maze start goal = Some None)"
proof -
  let ?U = "{c. passable maze c}"
  have "\<exists>s'. astar_inv maze start goal s' \<and>
     ((openList s' = [] \<and> astar_loop maze goal (initial_state start goal) = Some None) \<or>
      (openList s' \<noteq> [] \<and> current_of s' = goal \<and>
       astar_loop maze goal (initial_state start goal)
         = map_option Some (reconstruct (cameFrom s') goal [])))"
  proof (rule astar_loop_rule [where U = ?U])
    show "astar_inv maze start goal (initial_state start goal)"
      using start by (rule astar_inv_initial)
  next
    fix s assume "astar_inv maze start goal s" "openList s \<noteq> []" "current_of s \<noteq> goal"
    then show "astar_inv maze start goal (astar_body maze goal s)" by (rule astar_inv_body)
  next
    fix s assume "astar_inv maze start goal s"
    then have core: "core_inv maze start goal (closed s) s" by (simp add: astar_inv_def)
    note D = core_invD [OF core]
    show "set (openList s) \<subseteq> ?U - closed s"
    proof
      fix c assume c: "c \<in> set (openList s)"
      then have "c \<in> dom (gScore s)" using D(3) by simp
      then obtain g where "gScore s c = Some g" by auto
      then have "passable maze c" using D(4) connected_passable by blast
      moreover have "c \<notin> closed s" using c D(2) by auto
      ultimately show "c \<in> ?U - closed s" by simp
    qed
  next
    show "finite ?U" by (rule finite_passable)
  qed
  then obtain s' where inv: "astar_inv maze start goal s'"
    and res: "(openList s' = [] \<and> astar_loop maze goal (initial_state start goal) = Some None) \<or>
      (openList s' \<noteq> [] \<and> current_of s' = goal \<and>
       astar_loop maze goal (initial_state start goal)
         = map_option Some (reconstruct (cameFrom s') goal []))"
    by blast
  have core: "core_inv maze start goal (closed s') s'" using inv by (simp add: astar_inv_def)
  note D = core_invD [OF core]
  from res show ?thesis
  proof
    assume empty: "openList s' = [] \<and> astar_loop maze goal (initial_state start goal) = Some None"
    have "\<not> connected maze start goal"
    proof
      assume "connected maze start goal"
      from frontier [OF core this] D(12) empty show False by simp
    qed
    with empty show ?thesis by (simp add: findPath_def)
  next
    assume found: "openList s' \<noteq> [] \<and> current_of s' = goal \<and>
       astar_loop maze goal (initial_state start goal)
         = map_option Some (reconstruct (cameFrom s') goal [])"
    then have ne: "openList s' \<noteq> []" and cur: "current_of s' = goal" by simp_all
    have g: "gScore s' goal = Some (int (bfs_distance maze start goal))"
      using pop_optimal [OF core ne] cur by simp
    then have con: "connected maze start goal" by (rule D(4))
    from reconstruct_path [OF core g, of "[]"] obtain w where
      w: "reconstruct (cameFrom s') goal [] = Some w" "is_path maze w" "hd w = start"
        "last w = goal" "int (length w) = int (bfs_distance maze start goal) + 1"
      by auto
    have len: "length w = Suc (bfs_distance maze start goal)" using w(5) by simp
    have least: "length w \<le> length other"
      if "is_path maze other \<and> hd other = start \<and> last other = goal" for other
    proof -
      from that have "reach maze start (length other - 1) goal"
        using is_path_reach [of maze other] by simp
      then have "bfs_distance maze start goal \<le> length other - 1" by (rule distance_le)
      moreover have "other \<noteq> []" using that by auto
      ultimately show ?thesis using len by (cases other) simp_all
    qed
    have "findPath maze start goal = Some (Some w)"
      using found w(1) by (simp add: findPath_def)
    with w(2,3,4) len least con show ?thesis by blast
  qed
qed

text \<open>
  The hypotheses of C2 hold in the grid whose open cells form a ring around one wall, for
  opposite corners.
\<close>

definition ring_grid :: grid where
  "ring_grid =
     [[Some 0, Some 0, Some 0], [Some 0, Some 1, Some 0], [Some 0, Some 0, Some 0]]"

theorem findPath_optimal_witness:
  "passable ring_grid (0, 0) \<and> passable ring_grid (2, 2) \<and>
   connected ring_grid (0, 0) (2, 2) \<and>
   (\<exists>path. findPath ring_grid (0, 0) (2, 2) = Some (Some path) \<and> is_path ring_grid path \<and>
      hd path = (0, 0) \<and> last path = (2, 2) \<and>
      length path = Suc (bfs_distance ring_grid (0, 0) (2, 2)))"
proof -
  have p1: "passable ring_grid (0, 0)" and p2: "passable ring_grid (2, 2)"
    by (simp_all add: passable_def ring_grid_def grid_get_def js_get_def)
  have path: "is_path ring_grid [(0, 0), (0, 1), (0, 2), (1, 2), (2, 2)]"
    by (simp add: passable_def ring_grid_def grid_get_def js_get_def neighbours_def)
  have "reach ring_grid (hd [(0, 0), (0, 1), (0, 2), (1, 2), (2, 2)])
      (length [(0, 0), (0, 1), (0, 2), (1, 2), (2 :: int, 2 :: int)] - 1)
      (last [(0, 0), (0, 1), (0, 2), (1, 2), (2, 2)])"
    using path by (rule is_path_reach)
  then have con: "connected ring_grid (0, 0) (2, 2)" by (auto simp: connected_def)
  from findPath_optimal [OF p1 p2] con p1 p2 show ?thesis by blast
qed

subsection \<open>A search that starts on a wall cell\<close>

text \<open>
  The loop reads the grid only at the neighbours of the node it has popped, and by then the
  start node is in the closed set.  So the cell of the start node does not matter: opening it
  changes nothing.
\<close>

lemma wall_cell_bounds:
  assumes "grid_get maze x y = Some 1"
  shows "0 \<le> y" "nat y < length maze" "0 \<le> x" "nat x < length (maze ! nat y)"
  using assms by (auto simp: grid_get_def js_get_def split: if_splits)

lemma grid_set_wall:
  assumes "grid_get maze x y = Some 1"
  shows "grid_set maze x y 0 = maze[nat y := (maze ! nat y)[nat x := Some 0]]"
  using wall_cell_bounds [OF assms] by (simp add: grid_set_def js_set_def)

lemma grid_get_opened:
  assumes "grid_get maze x y = Some 1"
  shows "grid_get (grid_set maze x y 0) x' y' =
     (if x' = x \<and> y' = y then Some 0 else grid_get maze x' y')"
proof -
  note b = wall_cell_bounds [OF assms]
  show ?thesis
  proof (cases "0 \<le> y' \<and> nat y' < length maze")
    case False
    then show ?thesis using b by (auto simp: grid_set_wall [OF assms] grid_get_def)
  next
    case True
    show ?thesis
    proof (cases "y' = y")
      case y: True
      show ?thesis
      proof (cases "0 \<le> x' \<and> nat x' < length (maze ! nat y)")
        case True
        then show ?thesis using b y
          by (auto simp: grid_set_wall [OF assms] grid_get_def js_get_def nth_list_update)
      next
        case False
        then show ?thesis using b y
          by (auto simp: grid_set_wall [OF assms] grid_get_def js_get_def)
      qed
    next
      case False
      then have "nat y' \<noteq> nat y" using True b by auto
      then show ?thesis using True False
        by (simp add: grid_set_wall [OF assms] grid_get_def)
    qed
  qed
qed

lemma length_opened:
  assumes "grid_get maze x y = Some 1"
  shows "length (grid_set maze x y 0) = length maze"
    and "length (grid_set maze x y 0 ! 0) = length (maze ! 0)"
proof -
  note b = wall_cell_bounds [OF assms]
  show "length (grid_set maze x y 0) = length maze" by (simp add: grid_set_def)
  show "length (grid_set maze x y 0 ! 0) = length (maze ! 0)"
    unfolding grid_set_wall [OF assms]
    using b by (cases "nat y = 0") (simp_all add: nth_list_update)
qed

lemma passable_opened:
  assumes "grid_get maze (fst start) (snd start) = Some 1"
  shows "passable (grid_set maze (fst start) (snd start) 0) c \<longleftrightarrow>
     (if c = start then fst start < int (length (maze ! 0)) else passable maze c)"
proof -
  note b = wall_cell_bounds [OF assms]
  have eq: "c = start \<longleftrightarrow> fst c = fst start \<and> snd c = snd start" by (auto simp: prod_eq_iff)
  show ?thesis
    unfolding passable_def length_opened [OF assms] grid_get_opened [OF assms] eq
    using b by auto
qed

lemma relax_opened:
  assumes wall: "grid_get maze (fst start) (snd start) = Some 1" and "start \<in> closed st"
  shows "relax (grid_set maze (fst start) (snd start) 0) goal cur nb st = relax maze goal cur nb st"
proof (cases "nb = start")
  case True
  have "\<not> passable maze start" using wall by (simp add: passable_def)
  with True assms(2) show ?thesis by (simp add: relax_def)
next
  case False
  then show ?thesis by (simp add: relax_def passable_opened [OF wall])
qed

lemma fold_relax_opened:
  assumes wall: "grid_get maze (fst start) (snd start) = Some 1"
  shows "start \<in> closed st \<Longrightarrow>
     fold (relax (grid_set maze (fst start) (snd start) 0) goal cur) ns st
       = fold (relax maze goal cur) ns st"
proof (induction ns arbitrary: st)
  case Nil
  show ?case by simp
next
  case (Cons nb ns)
  have "start \<in> closed (relax maze goal cur nb st)" using Cons.prems by simp
  from Cons.IH [OF this] show ?case by (simp add: relax_opened [OF wall Cons.prems])
qed

text \<open>What holds of the states of a search, whatever the start and the goal are.\<close>

definition frontier_inv :: "grid \<Rightarrow> cell \<Rightarrow> astar \<Rightarrow> bool" where
  "frontier_inv maze start st \<longleftrightarrow>
     distinct (openList st) \<and> set (openList st) \<inter> closed st = {} \<and>
     set (openList st) \<subseteq> insert start {c. passable maze c} \<and>
     (start \<in> closed st \<or> openList st = [start])"

lemma frontier_inv_fold_relax:
  assumes "distinct (openList st) \<and> set (openList st) \<inter> closed st = {} \<and>
     set (openList st) \<subseteq> insert start {c. passable maze c}"
  shows "distinct (openList (fold (relax maze goal cur) ns st)) \<and>
     set (openList (fold (relax maze goal cur) ns st)) \<inter> closed st = {} \<and>
     set (openList (fold (relax maze goal cur) ns st)) \<subseteq> insert start {c. passable maze c}"
  using assms
proof (induction ns arbitrary: st)
  case Nil
  then show ?case by simp
next
  case (Cons nb ns)
  have "distinct (openList (relax maze goal cur nb st)) \<and>
     set (openList (relax maze goal cur nb st)) \<inter> closed (relax maze goal cur nb st) = {} \<and>
     set (openList (relax maze goal cur nb st)) \<subseteq> insert start {c. passable maze c}"
    using Cons.prems by (auto simp: openList_relax)
  from Cons.IH [OF this] show ?case by simp
qed

lemma current_of_single: "openList st = [c] \<Longrightarrow> current_of st = c"
  by (simp add: current_of_def)

lemma frontier_inv_body:
  assumes inv: "frontier_inv maze start st" and ne: "openList st \<noteq> []"
  shows "frontier_inv maze start (astar_body maze goal st)"
    and "start \<in> closed (pop_state st)"
proof -
  have d: "distinct (openList st)" using inv by (simp add: frontier_inv_def)
  show s: "start \<in> closed (pop_state st)"
    using inv current_of_single [of st start] by (auto simp: frontier_inv_def pop_state_def)
  have "distinct (openList (pop_state st)) \<and>
     set (openList (pop_state st)) \<inter> closed (pop_state st) = {} \<and>
     set (openList (pop_state st)) \<subseteq> insert start {c. passable maze c}"
    using inv open_pop_state [OF d ne] by (auto simp: frontier_inv_def pop_state_def)
  from frontier_inv_fold_relax [OF this, of goal "current_of st" "neighbours (current_of st)"] s
  show "frontier_inv maze start (astar_body maze goal st)"
    by (simp add: frontier_inv_def astar_body_def)
qed

lemma astar_body_opened:
  assumes wall: "grid_get maze (fst start) (snd start) = Some 1"
    and inv: "frontier_inv maze start st" and ne: "openList st \<noteq> []"
  shows "astar_body (grid_set maze (fst start) (snd start) 0) goal st = astar_body maze goal st"
  unfolding astar_body_def
  using wall frontier_inv_body(2) [OF inv ne] by (rule fold_relax_opened)

lemma astar_loop_opened:
  assumes wall: "grid_get maze (fst start) (snd start) = Some 1"
  shows "frontier_inv maze start st \<Longrightarrow>
     astar_loop (grid_set maze (fst start) (snd start) 0) goal st = astar_loop maze goal st"
proof (induction "card (insert start {c. passable maze c} - closed st)" arbitrary: st
    rule: less_induct)
  case less
  let ?U = "insert start {c. passable maze c}"
  let ?m = "grid_set maze (fst start) (snd start) 0"
  show ?case
  proof (cases "openList st = [] \<or> current_of st = goal")
    case True
    then show ?thesis
      by (subst astar_loop.simps, subst (2) astar_loop.simps) auto
  next
    case False
    then have ne: "openList st \<noteq> []" and cur: "current_of st \<noteq> goal" by simp_all
    let ?s1 = "astar_body maze goal st"
    have inv1: "frontier_inv maze start ?s1" using less.prems ne by (rule frontier_inv_body(1))
    have "current_of st \<in> ?U - closed st"
      using less.prems current_of_in_open [OF ne] by (auto simp: frontier_inv_def)
    then have "?U - closed ?s1 \<subset> ?U - closed st"
      unfolding closed_astar_body by blast
    moreover have "finite (?U - closed st)" using finite_passable by simp
    ultimately have "card (?U - closed ?s1) < card (?U - closed st)"
      by (rule psubset_card_mono [rotated])
    from less.hyps [OF this inv1]
    have ih: "astar_loop ?m goal ?s1 = astar_loop maze goal ?s1" .
    have "astar_loop ?m goal st = astar_loop ?m goal (astar_body ?m goal st)"
      using ne cur by (subst astar_loop.simps) simp
    also have "\<dots> = astar_loop ?m goal ?s1"
      by (simp add: astar_body_opened [OF wall less.prems ne])
    also have "\<dots> = astar_loop maze goal ?s1" by (rule ih)
    also have "\<dots> = astar_loop maze goal st"
      using ne cur by (subst (2) astar_loop.simps) simp
    finally show ?thesis .
  qed
qed

lemma findPath_opened:
  assumes "grid_get maze (fst start) (snd start) = Some 1"
  shows "findPath maze start goal = findPath (grid_set maze (fst start) (snd start) 0) start goal"
  unfolding findPath_def
  by (rule astar_loop_opened [OF assms, symmetric])
     (simp add: frontier_inv_def initial_state_def)

text \<open>What the search from an open cell returns.\<close>

lemma findPath_search:
  assumes start: "passable maze start"
  shows "(connected maze start goal \<longrightarrow>
          (\<exists>path. findPath maze start goal = Some (Some path) \<and> is_path maze path \<and>
             hd path = start \<and> last path = goal \<and>
             length path = Suc (bfs_distance maze start goal))) \<and>
         (\<not> connected maze start goal \<longrightarrow> findPath maze start goal = Some None)"
proof -
  let ?U = "{c. passable maze c}"
  have "\<exists>s'. astar_inv maze start goal s' \<and>
     ((openList s' = [] \<and> astar_loop maze goal (initial_state start goal) = Some None) \<or>
      (openList s' \<noteq> [] \<and> current_of s' = goal \<and>
       astar_loop maze goal (initial_state start goal)
         = map_option Some (reconstruct (cameFrom s') goal [])))"
  proof (rule astar_loop_rule [where U = ?U])
    show "astar_inv maze start goal (initial_state start goal)"
      using start by (rule astar_inv_initial)
  next
    fix s assume "astar_inv maze start goal s" "openList s \<noteq> []" "current_of s \<noteq> goal"
    then show "astar_inv maze start goal (astar_body maze goal s)" by (rule astar_inv_body)
  next
    fix s assume "astar_inv maze start goal s"
    then have core: "core_inv maze start goal (closed s) s" by (simp add: astar_inv_def)
    note D = core_invD [OF core]
    show "set (openList s) \<subseteq> ?U - closed s"
    proof
      fix c assume c: "c \<in> set (openList s)"
      then have "c \<in> dom (gScore s)" using D(3) by simp
      then obtain g where "gScore s c = Some g" by auto
      then have "passable maze c" using D(4) connected_passable by blast
      moreover have "c \<notin> closed s" using c D(2) by auto
      ultimately show "c \<in> ?U - closed s" by simp
    qed
  next
    show "finite ?U" by (rule finite_passable)
  qed
  then obtain s' where inv: "astar_inv maze start goal s'"
    and res: "(openList s' = [] \<and> astar_loop maze goal (initial_state start goal) = Some None) \<or>
      (openList s' \<noteq> [] \<and> current_of s' = goal \<and>
       astar_loop maze goal (initial_state start goal)
         = map_option Some (reconstruct (cameFrom s') goal []))"
    by blast
  have core: "core_inv maze start goal (closed s') s'" using inv by (simp add: astar_inv_def)
  note D = core_invD [OF core]
  from res show ?thesis
  proof
    assume empty: "openList s' = [] \<and> astar_loop maze goal (initial_state start goal) = Some None"
    have "\<not> connected maze start goal"
    proof
      assume "connected maze start goal"
      from frontier [OF core this] D(12) empty show False by simp
    qed
    with empty show ?thesis by (simp add: findPath_def)
  next
    assume found: "openList s' \<noteq> [] \<and> current_of s' = goal \<and>
       astar_loop maze goal (initial_state start goal)
         = map_option Some (reconstruct (cameFrom s') goal [])"
    then have ne: "openList s' \<noteq> []" and cur: "current_of s' = goal" by simp_all
    have g: "gScore s' goal = Some (int (bfs_distance maze start goal))"
      using pop_optimal [OF core ne] cur by simp
    then have con: "connected maze start goal" by (rule D(4))
    from reconstruct_path [OF core g, of "[]"] obtain w where
      w: "reconstruct (cameFrom s') goal [] = Some w" "is_path maze w" "hd w = start"
        "last w = goal" "int (length w) = int (bfs_distance maze start goal) + 1"
      by auto
    have len: "length w = Suc (bfs_distance maze start goal)" using w(5) by simp
    have "findPath maze start goal = Some (Some w)"
      using found w(1) by (simp add: findPath_def)
    with w(2,3,4) len con show ?thesis by blast
  qed
qed

text \<open>
  C6 (amended).  For every grid, if the goal cell is a wall cell and differs from the start
  cell, then \<open>findPath\<close> returns NotFound.  The start cell is not examined: if the start cell
  is a wall cell, \<open>findPath\<close> returns what it returns on the grid in which that cell alone has
  been opened.  So, for a wall start cell within the width of the first row (which the search
  takes for the width of the grid), it returns a path from the start to the goal whose
  number of moves is the breadth-first distance in the grid with the start opened, if the
  goal is connected to the start there, and NotFound if it is not.
\<close>

theorem findPath_wall_cells:
  "(grid_get maze (fst goal) (snd goal) = Some 1 \<and> start \<noteq> goal
      \<longrightarrow> findPath maze start goal = Some None) \<and>
   (grid_get maze (fst start) (snd start) = Some 1 \<longrightarrow>
      findPath maze start goal = findPath (grid_set maze (fst start) (snd start) 0) start goal \<and>
      (fst start < int (length (maze ! 0)) \<longrightarrow>
         (connected (grid_set maze (fst start) (snd start) 0) start goal \<longrightarrow>
            (\<exists>path. findPath maze start goal = Some (Some path) \<and>
               is_path (grid_set maze (fst start) (snd start) 0) path \<and>
               hd path = start \<and> last path = goal \<and>
               length path
                 = Suc (bfs_distance (grid_set maze (fst start) (snd start) 0) start goal))) \<and>
         (\<not> connected (grid_set maze (fst start) (snd start) 0) start goal \<longrightarrow>
            findPath maze start goal = Some None)))"
proof (intro conjI impI)
  assume "grid_get maze (fst goal) (snd goal) = Some 1 \<and> start \<noteq> goal"
  then show "findPath maze start goal = Some None" by (intro wall_goal_search) simp_all
next
  assume "grid_get maze (fst start) (snd start) = Some 1"
  then show "findPath maze start goal
      = findPath (grid_set maze (fst start) (snd start) 0) start goal"
    by (rule findPath_opened)
next
  let ?m = "grid_set maze (fst start) (snd start) 0"
  assume wall: "grid_get maze (fst start) (snd start) = Some 1"
    and w: "fst start < int (length (maze ! 0))"
  have eq: "findPath maze start goal = findPath ?m start goal" using wall by (rule findPath_opened)
  have p: "passable ?m start" using w by (simp add: passable_opened [OF wall])
  note S = findPath_search [OF p, of goal, folded eq]
  {
    assume "connected ?m start goal"
    with S show "\<exists>path. findPath maze start goal = Some (Some path) \<and> is_path ?m path \<and>
        hd path = start \<and> last path = goal \<and> length path = Suc (bfs_distance ?m start goal)"
      by blast
  next
    assume "\<not> connected ?m start goal"
    with S show "findPath maze start goal = Some None" by blast
  }
qed

text \<open>
  The hypotheses of C6 hold for the row open, wall with the wall cell as the goal, and for
  the row wall, open with the wall cell as the start.
\<close>

theorem findPath_wall_cells_witness:
  "grid_get [[Some 0, Some 1]] (fst ((1, 0) :: cell)) (snd ((1, 0) :: cell)) = Some 1 \<and>
   ((0, 0) :: cell) \<noteq> (1, 0) \<and>
   findPath [[Some 0, Some 1]] (0, 0) (1, 0) = Some None \<and>
   grid_get [[Some 1, Some 0]] (fst ((0, 0) :: cell)) (snd ((0, 0) :: cell)) = Some 1 \<and>
   fst ((0, 0) :: cell) < int (length ([[Some 1, Some 0]] ! 0)) \<and>
   connected (grid_set [[Some 1, Some 0]] (fst ((0, 0) :: cell)) (snd ((0, 0) :: cell)) 0) (0, 0) (1, 0) \<and>
   (\<exists>path. findPath [[Some 1, Some 0]] (0, 0) (1, 0) = Some (Some path) \<and>
      hd path = (0, 0) \<and> last path = (1, 0) \<and>
      length path
        = Suc (bfs_distance (grid_set [[Some 1, Some 0]] (fst ((0, 0) :: cell)) (snd ((0, 0) :: cell)) 0)
            (0, 0) (1, 0)))"
proof -
  have w: "grid_get [[Some 0, Some 1]] (fst ((1, 0) :: cell)) (snd ((1, 0) :: cell)) = Some 1"
    by (simp add: grid_get_def js_get_def)
  have d: "((0, 0) :: cell) \<noteq> (1, 0)" by simp
  have s: "grid_get [[Some 1, Some 0]] (fst ((0, 0) :: cell)) (snd ((0, 0) :: cell)) = Some 1"
    by (simp add: grid_get_def js_get_def)
  have b: "fst ((0, 0) :: cell) < int (length ([[Some 1, Some 0]] ! 0))" by simp
  let ?m = "grid_set [[Some 1, Some 0]] (fst ((0, 0) :: cell)) (snd ((0, 0) :: cell)) 0"
  have m: "?m = [[Some 0, Some 0]]" by (simp add: grid_set_def js_set_def)
  have "is_path ?m [(0, 0), (1, 0)]"
    unfolding m by (simp add: passable_def grid_get_def js_get_def neighbours_def)
  then have "reach ?m (hd [(0, 0), (1, 0)]) (length [(0 :: int, 0 :: int), (1, 0)] - 1)
      (last [(0, 0), (1, 0)])"
    by (rule is_path_reach)
  then have c: "connected ?m (0, 0) (1, 0)" by (auto simp: connected_def)
  from findPath_wall_cells [of "[[Some 0, Some 1]]" "(1, 0)" "(0, 0)"] w d
  have one: "findPath [[Some 0, Some 1]] (0, 0) (1, 0) = Some None" by blast
  from findPath_wall_cells [of "[[Some 1, Some 0]]" "(1, 0)" "(0, 0)"] s b c
  have two: "\<exists>path. findPath [[Some 1, Some 0]] (0, 0) (1, 0) = Some (Some path) \<and>
      hd path = (0, 0) \<and> last path = (1, 0) \<and>
      length path = Suc (bfs_distance ?m (0, 0) (1, 0))"
    by blast
  from w d one s b c two show ?thesis by blast
qed

subsection \<open>Rooms, open cells and well-formed grids\<close>

definition rooms :: "int \<Rightarrow> int \<Rightarrow> cell set" where
  "rooms width height =
     {(x, y). odd x \<and> odd y \<and> 0 < x \<and> x < width - 1 \<and> 0 < y \<and> y < height - 1}"

definition cell_open :: "grid \<Rightarrow> cell \<Rightarrow> bool" where
  "cell_open maze c \<longleftrightarrow> grid_get maze (fst c) (snd c) = Some 0"

text \<open>A connector: an open cell between two open cells of its row or of its column.\<close>

definition between :: "grid \<Rightarrow> cell \<Rightarrow> bool" where
  "between maze c \<longleftrightarrow>
     (even (fst c) \<and> odd (snd c) \<and> cell_open maze (fst c - 1, snd c) \<and> cell_open maze (fst c + 1, snd c)) \<or>
     (odd (fst c) \<and> even (snd c) \<and> cell_open maze (fst c, snd c - 1) \<and> cell_open maze (fst c, snd c + 1))"

definition well_formed :: "grid \<Rightarrow> int \<Rightarrow> int \<Rightarrow> bool" where
  "well_formed maze width height \<longleftrightarrow>
     int (length maze) = height \<and> (\<forall>row\<in>set maze. int (length row) = width) \<and>
     (\<forall>row\<in>set maze. \<forall>c\<in>set row. c = Some 0 \<or> c = Some 1)"

lemma well_formed_get:
  assumes "well_formed maze width height" and "0 \<le> x" "x < width" "0 \<le> y" "y < height"
  shows "grid_get maze x y = Some 0 \<or> grid_get maze x y = Some 1"
proof -
  have y: "nat y < length maze" using assms by (auto simp: well_formed_def)
  then have row: "maze ! nat y \<in> set maze" by simp
  then have x: "nat x < length (maze ! nat y)" using assms by (auto simp: well_formed_def)
  then have "maze ! nat y ! nat x \<in> set (maze ! nat y)" by simp
  with row assms(1) have "maze ! nat y ! nat x = Some 0 \<or> maze ! nat y ! nat x = Some 1"
    unfolding well_formed_def by blast
  with x y assms(2,4) show ?thesis by (simp add: grid_get_def js_get_def)
qed

lemma grid_get_bounds:
  assumes "well_formed maze width height" and "grid_get maze x y = Some v"
  shows "0 \<le> x \<and> x < width \<and> 0 \<le> y \<and> y < height"
proof -
  from assms(2) have y: "0 \<le> y" "nat y < length maze" and g: "js_get (maze ! nat y) x = Some v"
    by (auto simp: grid_get_def split: if_splits)
  from g have x: "0 \<le> x" "nat x < length (maze ! nat y)"
    by (auto simp: js_get_def split: if_splits)
  have "maze ! nat y \<in> set maze" using y by simp
  with assms(1) have w: "int (length (maze ! nat y)) = width" by (auto simp: well_formed_def)
  have h: "int (length maze) = height" using assms(1) by (simp add: well_formed_def)
  from x w have "x < width" by linarith
  moreover from y h have "y < height" by linarith
  ultimately show ?thesis using x(1) y(1) by simp
qed

lemma well_formed_set:
  assumes wf: "well_formed maze width height" and b: "0 \<le> x" "x < width" "0 \<le> y" "y < height"
  shows "well_formed (grid_set maze x y 0) width height"
    and "grid_get (grid_set maze x y 0) x' y' =
           (if x' = x \<and> y' = y then Some 0 else grid_get maze x' y')"
proof -
  have y: "nat y < length maze" using wf b by (auto simp: well_formed_def)
  then have row: "maze ! nat y \<in> set maze" by simp
  then have x: "nat x < length (maze ! nat y)" using wf b by (auto simp: well_formed_def)
  have set_eq: "grid_set maze x y 0 = maze[nat y := (maze ! nat y)[nat x := Some 0]]"
    using x y b by (simp add: grid_set_def js_set_def)
  show "well_formed (grid_set maze x y 0) width height"
    unfolding set_eq well_formed_def
  proof (intro conjI ballI)
    show "int (length (maze[nat y := (maze ! nat y)[nat x := Some 0]])) = height"
      using wf by (simp add: well_formed_def)
  next
    fix r assume "r \<in> set (maze[nat y := (maze ! nat y)[nat x := Some 0]])"
    then have r: "r = (maze ! nat y)[nat x := Some 0] \<or> r \<in> set maze"
      by (auto dest: set_update_subset_insert [THEN subsetD])
    then show "int (length r) = width" using wf row by (auto simp: well_formed_def)
    fix c assume "c \<in> set r"
    with r have "c = Some 0 \<or> c \<in> set (maze ! nat y) \<or> (r \<in> set maze \<and> c \<in> set r)"
      by (auto dest: set_update_subset_insert [THEN subsetD])
    then show "c = Some 0 \<or> c = Some 1" using wf row unfolding well_formed_def by blast
  qed
  show "grid_get (grid_set maze x y 0) x' y' =
           (if x' = x \<and> y' = y then Some 0 else grid_get maze x' y')"
  proof (cases "y' = y")
    case True
    then show ?thesis
      using x y b unfolding set_eq
      by (auto simp: grid_get_def js_get_def nth_list_update)
  next
    case False
    then show ?thesis
      using y b unfolding set_eq
      by (auto simp: grid_get_def nth_list_update)
  qed
qed

lemma cell_open_set:
  assumes "well_formed maze width height" and "0 \<le> x" "x < width" "0 \<le> y" "y < height"
  shows "cell_open (grid_set maze x y 0) c \<longleftrightarrow> c = (x, y) \<or> cell_open maze c"
  using well_formed_set(2) [OF assms] by (cases c) (auto simp: cell_open_def)

lemma passable_well_formed:
  assumes wf: "well_formed maze width height"
  shows "passable maze c \<longleftrightarrow> cell_open maze c"
proof
  assume p: "passable maze c"
  then have y: "0 \<le> snd c" "snd c < height" and x0: "0 \<le> fst c"
    and xw: "fst c < int (length (maze ! 0))" and nw: "grid_get maze (fst c) (snd c) \<noteq> Some 1"
    using wf by (auto simp: passable_def well_formed_def)
  have "0 < length maze" using y wf by (auto simp: well_formed_def)
  then have "maze ! 0 \<in> set maze" by simp
  then have "int (length (maze ! 0)) = width" using wf by (auto simp: well_formed_def)
  with xw have "fst c < width" by simp
  from well_formed_get [OF wf x0 this y] nw show "cell_open maze c" by (simp add: cell_open_def)
next
  assume o: "cell_open maze c"
  then have g: "grid_get maze (fst c) (snd c) = Some 0" by (simp add: cell_open_def)
  from grid_get_bounds [OF wf g] have b: "0 \<le> fst c" "fst c < width" "0 \<le> snd c" "snd c < height"
    by simp_all
  have "0 < length maze" using b wf by (auto simp: well_formed_def)
  then have "maze ! 0 \<in> set maze" by simp
  then have "int (length (maze ! 0)) = width" using wf by (auto simp: well_formed_def)
  with b g wf show "passable maze c" by (auto simp: passable_def well_formed_def)
qed

lemma finite_open: "well_formed maze width height \<Longrightarrow> finite {c. cell_open maze c}"
proof -
  assume wf: "well_formed maze width height"
  have "{c. cell_open maze c} \<subseteq> {0..<width} \<times> {0..<height}"
    using grid_get_bounds [OF wf] by (auto simp: cell_open_def)
  moreover have "finite ({0..<width} \<times> {0..<height})" by simp
  ultimately show ?thesis by (rule finite_subset)
qed

lemma reach_mono:
  assumes "reach maze start n c" and "\<And>x. passable maze x \<Longrightarrow> passable maze' x"
  shows "reach maze' start n c"
  using assms(1)
proof (induction rule: reach.induct)
  case reach_start
  then show ?case using assms(2) by (intro reach.reach_start)
next
  case (reach_step n p q)
  then show ?case using assms(2) by (intro reach.reach_step)
qed

lemma connected_mono:
  "connected maze start c \<Longrightarrow> (\<And>x. passable maze x \<Longrightarrow> passable maze' x)
   \<Longrightarrow> connected maze' start c"
  unfolding connected_def by (blast intro: reach_mono)

lemma connected_extend:
  assumes "connected maze start p" and "q \<in> set (neighbours p)" and "passable maze q"
  shows "connected maze start q"
  using connected_step [OF assms] by simp

subsection \<open>The invariant of the carving loop\<close>

definition maze_inv :: "int \<Rightarrow> int \<Rightarrow> grid \<Rightarrow> cell list \<Rightarrow> bool" where
  "maze_inv width height maze stack \<longleftrightarrow>
     well_formed maze width height \<and>
     set stack \<subseteq> rooms width height \<and> (\<forall>c\<in>set stack. cell_open maze c) \<and>
     cell_open maze (1, 1) \<and> (1, 1) \<in> rooms width height \<and>
     (\<forall>c. cell_open maze c \<longrightarrow> c \<in> rooms width height \<or> between maze c) \<and>
     card {c. cell_open maze c} + 1 = 2 * card {c. cell_open maze c \<and> c \<in> rooms width height} \<and>
     (\<forall>c. cell_open maze c \<longrightarrow> connected maze (1, 1) c) \<and>
     (\<forall>v\<in>rooms width height. cell_open maze v \<longrightarrow> v \<notin> set stack \<longrightarrow>
        (\<forall>d\<in>set directions. (fst v + fst d, snd v + snd d) \<in> rooms width height \<longrightarrow>
           cell_open maze (fst v + fst d, snd v + snd d)))"

lemma maze_invD:
  assumes "maze_inv width height maze stack"
  shows "well_formed maze width height"
    and "set stack \<subseteq> rooms width height"
    and "\<And>c. c \<in> set stack \<Longrightarrow> cell_open maze c"
    and "cell_open maze (1, 1)"
    and "(1, 1) \<in> rooms width height"
    and "\<And>c. cell_open maze c \<Longrightarrow> c \<in> rooms width height \<or> between maze c"
    and "card {c. cell_open maze c} + 1 = 2 * card {c. cell_open maze c \<and> c \<in> rooms width height}"
    and "\<And>c. cell_open maze c \<Longrightarrow> connected maze (1, 1) c"
    and "\<And>v d. v \<in> rooms width height \<Longrightarrow> cell_open maze v \<Longrightarrow> v \<notin> set stack \<Longrightarrow>
           d \<in> set directions \<Longrightarrow> (fst v + fst d, snd v + snd d) \<in> rooms width height \<Longrightarrow>
           cell_open maze (fst v + fst d, snd v + snd d)"
  using assms unfolding maze_inv_def by blast+

lemma neighbours_of_mem:
  "c \<in> set (neighbours_of width height maze cell) \<longleftrightarrow>
     snd c \<in> set directions \<and> fst c = (fst cell + fst (snd c), snd cell + snd (snd c)) \<and>
     0 < fst (fst c) \<and> fst (fst c) < width - 1 \<and> 0 < snd (fst c) \<and> snd (fst c) < height - 1 \<and>
     grid_get maze (fst (fst c)) (snd (fst c)) = Some 1"
  by (cases c) (force simp: neighbours_of_def)

text \<open>Where the carved wall lies, for a room \<open>cell\<close> and a direction.\<close>

lemma carve_geometry:
  assumes d: "d \<in> set directions" and cell: "cell \<in> rooms width height"
    and room: "room = (fst cell + fst d, snd cell + snd d)"
    and conn: "conn = (fst cell + fst d div 2, snd cell + snd d div 2)"
    and b: "0 < fst room" "fst room < width - 1" "0 < snd room" "snd room < height - 1"
  shows "room \<in> rooms width height" and "conn \<notin> rooms width height"
    and "conn \<in> set (neighbours cell)" and "room \<in> set (neighbours conn)"
    and "conn \<noteq> room"
    and "0 \<le> fst conn \<and> fst conn < width \<and> 0 \<le> snd conn \<and> snd conn < height"
    and "(even (fst conn) \<and> odd (snd conn) \<and>
          {(fst conn - 1, snd conn), (fst conn + 1, snd conn)} = {cell, room}) \<or>
         (odd (fst conn) \<and> even (snd conn) \<and>
          {(fst conn, snd conn - 1), (fst conn, snd conn + 1)} = {cell, room})"
proof -
  obtain cx cy where c: "cell = (cx, cy)" by (cases cell)
  have par: "odd cx" "odd cy" "0 < cx" "cx < width - 1" "0 < cy" "cy < height - 1"
    using cell by (simp_all add: rooms_def c)
  from d have cases: "d = (0, -2) \<or> d = (2, 0) \<or> d = (0, 2) \<or> d = (-2, 0)"
    by (simp add: directions_def)
  show "room \<in> rooms width height"
    using cases par b by (auto simp: rooms_def room c)
  show "conn \<notin> rooms width height"
    using cases par by (auto simp: rooms_def conn c)
  show "conn \<in> set (neighbours cell)"
    using cases by (auto simp: neighbours_def conn c)
  show "room \<in> set (neighbours conn)"
    using cases by (auto simp: neighbours_def conn room c)
  show "conn \<noteq> room"
    using cases by (auto simp: conn room c)
  show "0 \<le> fst conn \<and> fst conn < width \<and> 0 \<le> snd conn \<and> snd conn < height"
    using cases par b by (auto simp: conn room c)
  from cases show "(even (fst conn) \<and> odd (snd conn) \<and>
          {(fst conn - 1, snd conn), (fst conn + 1, snd conn)} = {cell, room}) \<or>
         (odd (fst conn) \<and> even (snd conn) \<and>
          {(fst conn, snd conn - 1), (fst conn, snd conn + 1)} = {cell, room})"
  proof (elim disjE)
    assume "d = (0, -2)"
    then show ?thesis using par(1,2) by (simp add: conn room c doubleton_eq_iff)
  next
    assume "d = (2, 0)"
    then show ?thesis using par(1,2) by (simp add: conn room c doubleton_eq_iff)
  next
    assume "d = (0, 2)"
    then show ?thesis using par(1,2) by (simp add: conn room c doubleton_eq_iff)
  next
    assume "d = (-2, 0)"
    then show ?thesis using par(1,2) by (simp add: conn room c doubleton_eq_iff)
  qed
qed

lemma between_mono:
  "between maze c \<Longrightarrow> (\<And>x. cell_open maze x \<Longrightarrow> cell_open maze' x) \<Longrightarrow> between maze' c"
  unfolding between_def by blast

lemma pair_all: "{p, q} = {a, b} \<Longrightarrow> (P p \<and> P q) = (P a \<and> P b)"
  by (auto simp: doubleton_eq_iff)

lemma between_pair:
  assumes "(even (fst conn) \<and> odd (snd conn) \<and>
          {(fst conn - 1, snd conn), (fst conn + 1, snd conn)} = {a, b}) \<or>
         (odd (fst conn) \<and> even (snd conn) \<and>
          {(fst conn, snd conn - 1), (fst conn, snd conn + 1)} = {a, b})"
  shows "between maze conn \<longleftrightarrow> cell_open maze a \<and> cell_open maze b"
  using assms
proof (elim disjE conjE)
  assume p: "even (fst conn)" "odd (snd conn)"
    and e: "{(fst conn - 1, snd conn), (fst conn + 1, snd conn)} = {a, b}"
  show ?thesis unfolding between_def using p pair_all [OF e, of "cell_open maze"] by simp
next
  assume p: "odd (fst conn)" "even (snd conn)"
    and e: "{(fst conn, snd conn - 1), (fst conn, snd conn + 1)} = {a, b}"
  show ?thesis unfolding between_def using p pair_all [OF e, of "cell_open maze"] by simp
qed

lemma carve_push_inv:
  assumes inv: "maze_inv width height maze (cell # rest)"
    and ch: "chosen \<in> set (neighbours_of width height maze cell)"
  shows "maze_inv width height (carve_to maze cell chosen) (fst chosen # cell # rest)"
proof -
  note I = maze_invD [OF inv]
  define room where "room = fst chosen"
  define d where "d = snd chosen"
  define conn where "conn = (fst cell + fst d div 2, snd cell + snd d div 2)"
  let ?m = "carve_to maze cell chosen"
  from ch have d: "d \<in> set directions" and room: "room = (fst cell + fst d, snd cell + snd d)"
    and b: "0 < fst room" "fst room < width - 1" "0 < snd room" "snd room < height - 1"
    and wall: "grid_get maze (fst room) (snd room) = Some 1"
    unfolding neighbours_of_mem room_def d_def by blast+
  have cell: "cell \<in> rooms width height" using I(2) by simp
  have cell_o: "cell_open maze cell" using I(3) by simp
  note G = carve_geometry [OF d cell room conn_def b]
  have room_closed: "\<not> cell_open maze room" using wall by (simp add: cell_open_def)
  have rb: "0 \<le> fst room" "fst room < width" "0 \<le> snd room" "snd room < height"
    using b by simp_all
  let ?m1 = "grid_set maze (fst room) (snd room) 0"
  have wf1: "well_formed ?m1 width height" using I(1) rb by (rule well_formed_set(1))
  have o1: "cell_open ?m1 c \<longleftrightarrow> c = room \<or> cell_open maze c" for c
    using cell_open_set [OF I(1) rb, of c] by simp
  have m: "?m = grid_set ?m1 (fst conn) (snd conn) 0"
    by (simp add: carve_to_def Let_def room_def conn_def d_def)
  have cb: "0 \<le> fst conn" "fst conn < width" "0 \<le> snd conn" "snd conn < height"
    using G(6) by simp_all
  have wf: "well_formed ?m width height" unfolding m using wf1 cb by (rule well_formed_set(1))
  have o: "cell_open ?m c \<longleftrightarrow> c = conn \<or> c = room \<or> cell_open maze c" for c
    unfolding m using cell_open_set [OF wf1 cb, of c] o1 by simp
  have mono: "cell_open maze c \<Longrightarrow> cell_open ?m c" for c by (simp add: o)
  have pmono: "passable maze c \<Longrightarrow> passable ?m c" for c
    using mono by (simp add: passable_well_formed [OF I(1)] passable_well_formed [OF wf])
  have conn_closed: "\<not> cell_open maze conn"
  proof
    assume co: "cell_open maze conn"
    from I(6) [OF co] G(2) have "between maze conn" by simp
    then have "cell_open maze room"
      unfolding between_pair [OF G(7)] by simp
    with room_closed show False ..
  qed
  have sets: "{c. cell_open ?m c} = insert conn (insert room {c. cell_open maze c})"
    by (auto simp: o)
  have rsets: "{c. cell_open ?m c \<and> c \<in> rooms width height}
      = insert room {c. cell_open maze c \<and> c \<in> rooms width height}"
    using G(1,2) by (auto simp: o)
  have fin: "finite {c. cell_open maze c}" using I(1) by (rule finite_open)
  then have fin2: "finite {c. cell_open maze c \<and> c \<in> rooms width height}" by simp
  have c1: "card {c. cell_open ?m c} = card {c. cell_open maze c} + 2"
    unfolding sets using fin conn_closed room_closed G(5) by simp
  have c2: "card {c. cell_open ?m c \<and> c \<in> rooms width height}
      = card {c. cell_open maze c \<and> c \<in> rooms width height} + 1"
    unfolding rsets using fin2 room_closed by simp
  have con_cell: "connected ?m (1, 1) cell"
    using I(8) [OF cell_o] pmono by (rule connected_mono)
  have con_conn: "connected ?m (1, 1) conn"
    using con_cell G(3) by (rule connected_extend) (simp add: passable_well_formed [OF wf] o)
  have con_room: "connected ?m (1, 1) room"
    using con_conn G(4) by (rule connected_extend) (simp add: passable_well_formed [OF wf] o)
  have betw: "between ?m conn"
  proof -
    have "cell_open ?m cell" "cell_open ?m room" using cell_o by (simp_all add: o)
    then show ?thesis unfolding between_pair [OF G(7)] by simp
  qed
  show ?thesis
    unfolding maze_inv_def
  proof (intro conjI)
    show "well_formed ?m width height" by (rule wf)
    show "set (fst chosen # cell # rest) \<subseteq> rooms width height"
      using I(2) G(1) by (simp add: room_def)
    show "\<forall>c\<in>set (fst chosen # cell # rest). cell_open ?m c"
      using I(3) by (auto simp: o room_def)
    show "cell_open ?m (1, 1)" using I(4) by (rule mono)
    show "(1, 1) \<in> rooms width height" by (rule I(5))
    show "\<forall>c. cell_open ?m c \<longrightarrow> c \<in> rooms width height \<or> between ?m c"
    proof (intro allI impI)
      fix c assume "cell_open ?m c"
      then consider "c = conn" | "c = room" | "cell_open maze c" by (auto simp: o)
      then show "c \<in> rooms width height \<or> between ?m c"
      proof cases
        case 1
        then show ?thesis using betw by simp
      next
        case 2
        then show ?thesis using G(1) by simp
      next
        case 3
        from I(6) [OF this] show ?thesis using between_mono [OF _ mono] by blast
      qed
    qed
    show "card {c. cell_open ?m c} + 1 = 2 * card {c. cell_open ?m c \<and> c \<in> rooms width height}"
      using I(7) c1 c2 by simp
    show "\<forall>c. cell_open ?m c \<longrightarrow> connected ?m (1, 1) c"
    proof (intro allI impI)
      fix c assume "cell_open ?m c"
      then consider "c = conn" | "c = room" | "cell_open maze c" by (auto simp: o)
      then show "connected ?m (1, 1) c"
      proof cases
        case 3
        from I(8) [OF this] pmono show ?thesis by (rule connected_mono)
      qed (simp_all add: con_conn con_room)
    qed
    show "\<forall>v\<in>rooms width height. cell_open ?m v \<longrightarrow> v \<notin> set (fst chosen # cell # rest) \<longrightarrow>
        (\<forall>d\<in>set directions. (fst v + fst d, snd v + snd d) \<in> rooms width height \<longrightarrow>
           cell_open ?m (fst v + fst d, snd v + snd d))"
    proof (intro ballI impI)
      fix v e assume v: "v \<in> rooms width height" "cell_open ?m v"
        "v \<notin> set (fst chosen # cell # rest)" and e: "e \<in> set directions"
        "(fst v + fst e, snd v + snd e) \<in> rooms width height"
      have "v \<noteq> room" "v \<noteq> conn" using v(1,3) G(2) by (auto simp: room_def)
      with v(2) have "cell_open maze v" by (simp add: o)
      moreover have "v \<notin> set (cell # rest)" using v(3) by simp
      ultimately have "cell_open maze (fst v + fst e, snd v + snd e)"
        using I(9) v(1) e by blast
      then show "cell_open ?m (fst v + fst e, snd v + snd e)" by (rule mono)
    qed
  qed
qed

lemma carve_pop_inv:
  assumes inv: "maze_inv width height maze (cell # rest)"
    and none: "neighbours_of width height maze cell = []"
  shows "maze_inv width height maze rest"
proof -
  note I = maze_invD [OF inv]
  have opened: "cell_open maze (fst cell + fst d, snd cell + snd d)"
    if d: "d \<in> set directions" and r: "(fst cell + fst d, snd cell + snd d) \<in> rooms width height"
    for d
  proof -
    let ?x = "fst cell + fst d" and ?y = "snd cell + snd d"
    have b: "0 < ?x" "?x < width - 1" "0 < ?y" "?y < height - 1" using r by (simp_all add: rooms_def)
    have "((?x, ?y), d) \<notin> set (neighbours_of width height maze cell)" using none by simp
    then have "grid_get maze ?x ?y \<noteq> Some 1" using d b by (simp add: neighbours_of_mem)
    moreover have "grid_get maze ?x ?y = Some 0 \<or> grid_get maze ?x ?y = Some 1"
      by (rule well_formed_get [OF I(1)]) (use b in simp_all)
    ultimately show ?thesis by (simp add: cell_open_def)
  qed
  show ?thesis
    unfolding maze_inv_def
  proof (intro conjI)
    show "\<forall>v\<in>rooms width height. cell_open maze v \<longrightarrow> v \<notin> set rest \<longrightarrow>
        (\<forall>d\<in>set directions. (fst v + fst d, snd v + snd d) \<in> rooms width height \<longrightarrow>
           cell_open maze (fst v + fst d, snd v + snd d))"
    proof (intro ballI impI)
      fix v e assume v: "v \<in> rooms width height" "cell_open maze v" "v \<notin> set rest"
        and e: "e \<in> set directions" "(fst v + fst e, snd v + snd e) \<in> rooms width height"
      show "cell_open maze (fst v + fst e, snd v + snd e)"
      proof (cases "v = cell")
        case True
        with e opened show ?thesis by simp
      next
        case False
        with v(3) have "v \<notin> set (cell # rest)" by simp
        with I(9) v(1,2) e show ?thesis by blast
      qed
    qed
  qed (use I in auto)
qed

subsection \<open>The carving loop ends with every room opened\<close>

lemma carve_inv:
  assumes "\<forall>k. 0 \<le> rng k \<and> rng k < 1" and "maze_inv width height maze stack"
  shows "\<exists>m k'. carve rng k width height maze stack = Inr (m, k') \<and> maze_inv width height m []"
  using assms
proof (induction rng k width height maze stack rule: carve.induct)
  case (1 rng k width height maze)
  then show ?case by simp
next
  case (2 rng k width height maze cell rest)
  let ?ns = "neighbours_of width height maze cell"
  show ?case
  proof (cases "?ns = []")
    case True
    have nn: "\<not> ?ns \<noteq> []" using True by simp
    have "maze_inv width height maze rest" using "2.prems"(2) True by (rule carve_pop_inv)
    from "2.IH"(2) [OF refl nn "2.prems"(1) this] True show ?thesis by simp
  next
    case False
    let ?i = "random_floor (rng k) (int (length ?ns))"
    have range: "0 \<le> ?i \<and> ?i < int (length ?ns)"
      using "2.prems"(1) False by (intro random_floor_range) auto
    then have ok: "0 \<le> ?i \<and> nat ?i < length ?ns" by auto
    then have "?ns ! nat ?i \<in> set ?ns" by simp
    with "2.prems"(2)
    have "maze_inv width height (carve_to maze cell (?ns ! nat ?i)) (fst (?ns ! nat ?i) # cell # rest)"
      by (rule carve_push_inv)
    from "2.IH"(1) [OF refl False refl ok "2.prems"(1) this]
    show ?thesis using False ok by (simp add: Let_def)
  qed
qed

text \<open>
  A set of rooms that holds the start room and, with a room, the rooms two steps from it,
  holds every room.
\<close>

lemma rooms_closure:
  assumes start: "P (1, 1)"
    and step: "\<And>v d. v \<in> rooms width height \<Longrightarrow> P v \<Longrightarrow> d \<in> set directions \<Longrightarrow>
        (fst v + fst d, snd v + snd d) \<in> rooms width height \<Longrightarrow> P (fst v + fst d, snd v + snd d)"
    and c: "c \<in> rooms width height"
  shows "P c"
proof -
  obtain x y where xy: "c = (x, y)" by (cases c)
  from c have b: "odd x" "odd y" "0 < x" "x < width - 1" "0 < y" "y < height - 1"
    by (simp_all add: rooms_def xy)
  have half: "\<exists>i. z = 2 * int i + 1" if "odd z" "0 < z" for z :: int
  proof -
    have "z = 2 * (z div 2) + 1" using that(1) by simp
    moreover have "0 \<le> z div 2" using that(2) by simp
    ultimately have "z = 2 * int (nat (z div 2)) + 1" by simp
    then show ?thesis ..
  qed
  have row: "2 * int i + 1 < width - 1 \<Longrightarrow> P (2 * int i + 1, 1)" for i
  proof (induction i)
    case 0
    show ?case using start by simp
  next
    case (Suc i)
    have r: "(2 * int i + 1, 1) \<in> rooms width height" using Suc.prems b by (simp add: rooms_def)
    have p: "P (2 * int i + 1, 1)" using Suc by simp
    have "P (fst (2 * int i + 1, 1::int) + fst (2::int, 0::int), snd (2 * int i + 1, 1::int) + snd (2::int, 0::int))"
      using r p by (rule step) (use Suc.prems b in \<open>simp_all add: directions_def rooms_def\<close>)
    then show ?case by (simp add: algebra_simps)
  qed
  have col: "2 * int j + 1 < height - 1 \<Longrightarrow> P (x, 2 * int j + 1)" for j
  proof (induction j)
    case 0
    obtain i where i: "x = 2 * int i + 1" using half [OF b(1,3)] ..
    show ?case using row [of i] b(4) i by simp
  next
    case (Suc j)
    have r: "(x, 2 * int j + 1) \<in> rooms width height" using Suc.prems b by (simp add: rooms_def)
    have p: "P (x, 2 * int j + 1)" using Suc by simp
    have "P (fst (x, 2 * int j + 1) + fst (0::int, 2::int), snd (x, 2 * int j + 1) + snd (0::int, 2::int))"
      using r p by (rule step) (use Suc.prems b in \<open>simp_all add: directions_def rooms_def\<close>)
    then show ?case by (simp add: algebra_simps)
  qed
  obtain j where j: "y = 2 * int j + 1" using half [OF b(2,5)] ..
  show ?thesis using col [of j] b(6) j by (simp add: xy)
qed

lemma finite_rooms: "finite (rooms width height)"
proof -
  have "rooms width height \<subseteq> {0..width} \<times> {0..height}" by (auto simp: rooms_def)
  then show ?thesis by (rule finite_subset) simp
qed

lemma maze_inv_initial:
  assumes "3 \<le> width" and "3 \<le> height"
  shows "maze_inv (int width) (int height) (initial_maze width height) [(1, 1)]"
proof -
  let ?base = "replicate height (replicate width (Some (1::nat)))"
  let ?m = "initial_maze width height"
  have wf0: "well_formed ?base (int width) (int height)" by (simp add: well_formed_def)
  have b: "(0::int) \<le> 1" "1 < int width" "(0::int) \<le> 1" "1 < int height" using assms by simp_all
  have wf: "well_formed ?m (int width) (int height)"
    unfolding initial_maze_def using wf0 b by (rule well_formed_set(1))
  have closed: "\<not> cell_open ?base c" for c
    by (auto simp: cell_open_def grid_get_def js_get_def)
  have o: "cell_open ?m c \<longleftrightarrow> c = (1, 1)" for c
    unfolding initial_maze_def using cell_open_set [OF wf0 b, of c] closed by simp
  have r: "(1, 1) \<in> rooms (int width) (int height)" using assms by (simp add: rooms_def)
  have s1: "{c. cell_open ?m c} = {(1, 1)}" by (auto simp: o)
  have s2: "{c. cell_open ?m c \<and> c \<in> rooms (int width) (int height)} = {(1, 1)}"
    using r by (auto simp: o)
  have "passable ?m (1, 1)" by (simp add: passable_well_formed [OF wf] o)
  then have con: "connected ?m (1, 1) (1, 1)" by (rule connected_start)
  show ?thesis
    unfolding maze_inv_def s1 s2 using wf r con by (simp add: o)
qed

text \<open>
  C4.  For every width and height of at least 3 and random numbers in the unit interval, the
  carving loop returns a maze (the state before the extra openings are punched) in which
  every room cell, that is every interior cell with two odd coordinates, is open and is
  reached from the start room (1, 1) by a breadth-first search through open cells; every
  other open cell is a connector between two rooms of its row or column; and the number of
  these carved connectors is the number of rooms minus one.  A connected graph with one edge
  less than it has nodes is a tree.
\<close>

theorem carved_maze_spanning_tree:
  assumes rng: "\<forall>k. 0 \<le> rng k \<and> rng k < 1" and width: "3 \<le> width" and height: "3 \<le> height"
  shows "\<exists>maze k. carved_maze rng width height = Inr (maze, k) \<and>
     (\<forall>c\<in>rooms (int width) (int height). cell_open maze c \<and> connected maze (1, 1) c) \<and>
     (\<forall>c. cell_open maze c \<longrightarrow> c \<in> rooms (int width) (int height) \<or> between maze c) \<and>
     (\<forall>c. cell_open maze c \<longrightarrow> connected maze (1, 1) c) \<and>
     card {c. cell_open maze c \<and> c \<notin> rooms (int width) (int height)}
       = card (rooms (int width) (int height)) - 1"
proof -
  let ?R = "rooms (int width) (int height)"
  from carve_inv [OF rng maze_inv_initial [OF width height], of 0]
  obtain m k where run: "carve rng 0 (int width) (int height) (initial_maze width height) [(1, 1)]
      = Inr (m, k)" and inv: "maze_inv (int width) (int height) m []"
    by blast
  note I = maze_invD [OF inv]
  have res: "carved_maze rng width height = Inr (m, k)"
    using height run by (simp add: carved_maze_def)
  have all_open: "cell_open m c" if "c \<in> ?R" for c
    using I(4) _ that
  proof (rule rooms_closure)
    fix v d assume "v \<in> ?R" "cell_open m v" "d \<in> set directions"
      "(fst v + fst d, snd v + snd d) \<in> ?R"
    then show "cell_open m (fst v + fst d, snd v + snd d)" using I(9) by simp
  qed
  let ?O = "{c. cell_open m c}"
  have fin: "finite ?O" using I(1) by (rule finite_open)
  have sub: "?R \<subseteq> ?O" using all_open by blast
  have "{c. cell_open m c \<and> c \<in> ?R} = ?R" using all_open by blast
  with I(7) have count: "card ?O + 1 = 2 * card ?R" by simp
  have "{c. cell_open m c \<and> c \<notin> ?R} = ?O - ?R" by blast
  then have "card {c. cell_open m c \<and> c \<notin> ?R} = card ?O - card ?R"
    using card_Diff_subset [OF finite_rooms sub] by simp
  with count have c: "card {c. cell_open m c \<and> c \<notin> ?R} = card ?R - 1" by simp
  show ?thesis
    using res all_open I(6,8) c by (intro exI [of _ m] exI [of _ k]) blast
qed

text \<open>
  The hypotheses of C4 hold for a constant random source and the size 5 by 5, where the room
  (3, 3) is the one farthest from the start room.
\<close>

theorem carved_maze_spanning_tree_witness:
  "(3::nat) \<le> 5 \<and> (3, 3) \<in> rooms (int 5) (int 5) \<and>
   (\<exists>maze k. carved_maze (\<lambda>k. 0) 5 5 = Inr (maze, k) \<and>
      cell_open maze (3, 3) \<and> connected maze (1, 1) (3, 3) \<and>
      card {c. cell_open maze c \<and> c \<notin> rooms (int 5) (int 5)} = card (rooms (int 5) (int 5)) - 1)"
proof -
  have r: "(3, 3) \<in> rooms (int 5) (int 5)" by (simp add: rooms_def)
  from carved_maze_spanning_tree [of "\<lambda>k. 0" 5 5] r show ?thesis by fastforce
qed

section \<open>Properties of the double-precision operations\<close>

lemma ilog2_bounds:
  "1 \<le> n \<Longrightarrow> 0 \<le> ilog2 n \<and> 2 ^ nat (ilog2 n) \<le> n \<and> n < 2 ^ nat (ilog2 n + 1)"
proof (induction n rule: ilog2.induct)
  case (1 n)
  show ?case
  proof (cases "n \<le> 1")
    case True
    with "1.prems" have "n = 1" by simp
    then show ?thesis by (simp add: ilog2.simps)
  next
    case False
    then have h: "1 \<le> n div 2" by simp
    from "1.IH" [OF False h] have ih: "0 \<le> ilog2 (n div 2)"
      "2 ^ nat (ilog2 (n div 2)) \<le> n div 2" "n div 2 < 2 ^ nat (ilog2 (n div 2) + 1)"
      by simp_all
    have eq: "ilog2 n = 1 + ilog2 (n div 2)" using False by (subst ilog2.simps) simp
    have n1: "nat (1 + ilog2 (n div 2)) = Suc (nat (ilog2 (n div 2)))" using ih(1) by simp
    have n2: "nat (1 + ilog2 (n div 2) + 1) = Suc (nat (ilog2 (n div 2) + 1))" using ih(1) by simp
    have "2 * 2 ^ nat (ilog2 (n div 2)) \<le> n" using ih(2) by linarith
    moreover have "n < 2 * 2 ^ nat (ilog2 (n div 2) + 1)" using ih(3) by linarith
    ultimately show ?thesis using ih(1) unfolding eq n1 n2 by simp
  qed
qed

lemma ilog2_unique:
  assumes "2 ^ k \<le> n" and "n < 2 ^ Suc k"
  shows "ilog2 n = int k"
proof -
  have "(1::int) \<le> 2 ^ k" by simp
  with assms(1) have "1 \<le> n" by linarith
  from ilog2_bounds [OF this] have b: "0 \<le> ilog2 n" "2 ^ nat (ilog2 n) \<le> n"
    "n < 2 ^ nat (ilog2 n + 1)" by simp_all
  have "(2::int) ^ nat (ilog2 n) < 2 ^ Suc k" using b(2) assms(2) by linarith
  then have "nat (ilog2 n) < Suc k" by (simp only: power_strict_increasing_iff [of 2, simplified] one_less_numeral_iff semiring_norm power_strict_increasing_iff)
  moreover have "(2::int) ^ k < 2 ^ nat (ilog2 n + 1)" using b(3) assms(1) by linarith
  then have "k < nat (ilog2 n + 1)" by (simp only: power_strict_increasing_iff one_less_numeral_iff semiring_norm)
  ultimately show ?thesis using b(1) by linarith
qed

lemma round_even_of_int [simp]: "round_even (of_int i) = i"
  by (simp add: round_even_def)

lemma powi_nat: "0 \<le> k \<Longrightarrow> (2::real) powi k = 2 ^ nat k"
  by (simp add: power_int_def)

lemma abs_bound_split: "\<bar>x\<bar> < b \<Longrightarrow> \<not> b \<le> x \<and> \<not> x \<le> - b" for x b :: real
  by linarith

text \<open>
  A number with at most 53 binary digits in front of a power of two within the exponent
  range is a double: the result of an operation that has this value is exact.
\<close>

lemma to_double_exact:
  assumes x: "x = of_int m * 2 powi k" and m: "\<bar>m\<bar> < 2 ^ 53" and k: "- 1074 \<le> k"
    and fin: "\<bar>x\<bar> < 2 ^ 1024"
  shows "to_double x = Num x"
proof -
  define n where "n = \<lfloor>\<bar>x\<bar> * 2 ^ 1074\<rfloor>"
  have "\<bar>x\<bar> * 2 ^ 1074 = of_int \<bar>m\<bar> * (2 powi k * 2 powi 1074)"
    by (simp add: x abs_mult)
  also have "2 powi k * (2::real) powi 1074 = 2 powi (k + 1074)"
    by (simp add: power_int_add)
  also have "\<dots> = 2 ^ nat (k + 1074)" using k by (simp add: powi_nat)
  finally have scaled: "\<bar>x\<bar> * 2 ^ 1074 = of_int (\<bar>m\<bar> * 2 ^ nat (k + 1074))" by simp
  have n: "n = \<bar>m\<bar> * 2 ^ nat (k + 1074)" unfolding n_def scaled by (rule floor_of_int)
  have le: "exponent x - 52 \<le> k"
  proof (cases "m = 0")
    case True
    then have "n = 0" by (simp add: n)
    then have "exponent x = - 1022" unfolding exponent_def n_def [symmetric] by (simp add: ilog2.simps)
    with k show ?thesis by simp
  next
    case False
    then have "1 \<le> \<bar>m\<bar>" by simp
    moreover have "(1::int) \<le> 2 ^ nat (k + 1074)" by simp
    ultimately have "1 * 1 \<le> \<bar>m\<bar> * 2 ^ nat (k + 1074)" by (intro mult_mono) simp_all
    then have n1: "1 \<le> n" by (simp add: n)
    from ilog2_bounds [OF n1] have b: "0 \<le> ilog2 n" "2 ^ nat (ilog2 n) \<le> n" by simp_all
    have "n < 2 ^ 53 * 2 ^ nat (k + 1074)" unfolding n using m by simp
    then have "n < 2 ^ (53 + nat (k + 1074))" by (simp add: power_add)
    with b(2) have "(2::int) ^ nat (ilog2 n) < 2 ^ (53 + nat (k + 1074))" by linarith
    then have "nat (ilog2 n) < 53 + nat (k + 1074)"
      by (simp only: power_strict_increasing_iff one_less_numeral_iff semiring_norm)
    then have "ilog2 n - 1074 - 52 \<le> k" using b(1) k by linarith
    then show ?thesis unfolding exponent_def n_def [symmetric] using k by simp
  qed
  define j where "j = k - (exponent x - 52)"
  have j: "0 \<le> j" using le by (simp add: j_def)
  have kj: "k = j + (exponent x - 52)" by (simp add: j_def)
  define u where "u = ulp x"
  have split: "(2::real) powi k = 2 ^ nat j * u"
    unfolding u_def ulp_def by (subst kj) (simp add: power_int_add powi_nat [OF j])
  have pos: "u \<noteq> 0" by (simp add: u_def ulp_def)
  have xu: "x = of_int (m * 2 ^ nat j) * u" by (simp add: x split)
  then have "x / u = of_int (m * 2 ^ nat j)" using pos by simp
  then have "of_int (round_even (x / u)) * u = x" by (simp only: round_even_of_int xu [symmetric])
  then have r: "of_int (round_even (x / ulp x)) * ulp x = x" by (simp only: u_def)
  have nb: "\<not> 2 ^ 1024 \<le> x" "\<not> x \<le> - (2 ^ 1024)" using abs_bound_split [OF fin] by blast+
  show ?thesis unfolding to_double_def Let_def r using nb by (simp only: if_False)
qed

lemma to_double_half:
  assumes "\<bar>m\<bar> < 2 ^ 53"
  shows "to_double (of_int m / 2) = Num (of_int m / 2)"
proof (rule to_double_exact [where m = m and k = "- 1"])
  show "of_int m / 2 = of_int m * (2::real) powi (- 1)" by (simp add: power_int_minus)
  have "\<bar>real_of_int m\<bar> < 2 ^ 53" using assms by (metis of_int_abs of_int_less_numeral_power_cancel_iff)
  then show "\<bar>real_of_int m / 2\<bar> < 2 ^ 1024" by simp
qed (use assms in simp_all)

lemma to_double_quarter:
  assumes "\<bar>m\<bar> < 2 ^ 53"
  shows "to_double (of_int m / 4) = Num (of_int m / 4)"
proof (rule to_double_exact [where m = m and k = "- 2"])
  show "of_int m / 4 = of_int m * (2::real) powi (- 2)" by (simp add: power_int_minus)
  have "\<bar>real_of_int m\<bar> < 2 ^ 53" using assms by (metis of_int_abs of_int_less_numeral_power_cancel_iff)
  then show "\<bar>real_of_int m / 4\<bar> < 2 ^ 1024" by simp
qed (use assms in simp_all)

lemma to_double_int:
  assumes "\<bar>m\<bar> < 2 ^ 53"
  shows "to_double (of_int m) = Num (of_int m)"
proof (rule to_double_exact [where m = m and k = 0])
  have "\<bar>real_of_int m\<bar> < 2 ^ 53" using assms by (metis of_int_abs of_int_less_numeral_power_cancel_iff)
  then show "\<bar>real_of_int m\<bar> < 2 ^ 1024" by simp
qed (use assms in simp_all)

text \<open>One coordinate of the round trip, for the half \<open>h\<close> of the maze size.\<close>

lemma round_trip_coordinate:
  fixes g s :: int
  assumes g: "\<bar>g\<bar> \<le> 2 ^ 49" and s: "\<bar>s\<bar> \<le> 2 ^ 49"
  shows "js_floor (js_add (js_div
           (js_add (js_mul (js_sub (Num (of_int g)) (js_div (Num (of_int s)) (Num 2))) (Num 2.5))
              (js_div (Num 2.5) (Num 2)))
           (Num 2.5)) (js_div (Num (of_int s)) (Num 2))) = Num (of_int g)"
proof -
  let ?G = "real_of_int g" and ?S = "real_of_int s"
  have gs: "- 562949953421312 \<le> g" "g \<le> 562949953421312"
    "- 562949953421312 \<le> s" "s \<le> 562949953421312"
    using g s by simp_all
  have p: "(2::int) ^ 53 = 9007199254740992" by simp
  have b1: "\<bar>s\<bar> < 2 ^ 53" unfolding p abs_less_iff using gs by simp
  have b2: "\<bar>2 * g - s\<bar> < 2 ^ 53" unfolding p abs_less_iff using gs by simp
  have b3: "\<bar>5 * (2 * g - s)\<bar> < 2 ^ 53" unfolding p abs_less_iff using gs by simp
  have b4: "\<bar>5 * (2 * g - s) + 5\<bar> < 2 ^ 53" unfolding p abs_less_iff using gs by simp
  have b5: "\<bar>2 * g - s + 1\<bar> < 2 ^ 53" unfolding p abs_less_iff using gs by simp
  have b6: "\<bar>2 * g + 1\<bar> < 2 ^ 53" unfolding p abs_less_iff using gs by simp
  have h: "js_div (Num ?S) (Num 2) = Num (?S / 2)"
    using to_double_half [OF b1] by simp
  have q: "js_div (Num 2.5) (Num 2) = Num (5 / 4)"
    using to_double_quarter [of 5] by simp
  have e1: "?G + - (?S / 2) = of_int (2 * g - s) / 2" by (simp add: field_simps)
  have a: "js_sub (Num ?G) (Num (?S / 2)) = Num (of_int (2 * g - s) / 2)"
    unfolding js_sub_def js_neg.simps js_add.simps e1 using b2 by (rule to_double_half)
  have e2: "of_int (2 * g - s) / 2 * (2.5::real) = of_int (5 * (2 * g - s)) / 4" by simp
  have b: "js_mul (Num (of_int (2 * g - s) / 2)) (Num 2.5) = Num (of_int (5 * (2 * g - s)) / 4)"
    unfolding js_mul.simps e2 using b3 by (rule to_double_quarter)
  have e3: "of_int (5 * (2 * g - s)) / 4 + (5 / 4 :: real) = of_int (5 * (2 * g - s) + 5) / 4"
    by (simp add: field_simps)
  have c: "js_add (Num (of_int (5 * (2 * g - s)) / 4)) (Num (5 / 4))
      = Num (of_int (5 * (2 * g - s) + 5) / 4)"
    unfolding js_add.simps e3 using b4 by (rule to_double_quarter)
  have e4: "of_int (5 * (2 * g - s) + 5) / 4 / (2.5::real) = of_int (2 * g - s + 1) / 2"
    by (simp add: field_simps)
  have nz: "(2.5::real) \<noteq> 0" by simp
  have d: "js_div (Num (of_int (5 * (2 * g - s) + 5) / 4)) (Num 2.5)
      = Num (of_int (2 * g - s + 1) / 2)"
    unfolding js_div.simps e4 using nz to_double_half [OF b5] by (simp only: if_False)
  have e5: "of_int (2 * g - s + 1) / 2 + ?S / 2 = (of_int (2 * g + 1) / 2 :: real)"
    by (simp add: field_simps)
  have e: "js_add (Num (of_int (2 * g - s + 1) / 2)) (Num (?S / 2)) = Num (of_int (2 * g + 1) / 2)"
    unfolding js_add.simps e5 using b6 by (rule to_double_half)
  have e6: "(of_int (2 * g + 1) / 2 :: real) = of_int g + 1 / 2" by (simp add: field_simps)
  have f: "\<lfloor>of_int (2 * g + 1) / 2 :: real\<rfloor> = g" unfolding e6 by linarith
  show ?thesis unfolding h q a b c d e js_floor.simps f ..
qed

lemma ilog2_scaled:
  fixes a :: real
  assumes "2 ^ e \<le> a" and "a < 2 ^ Suc e"
  shows "ilog2 \<lfloor>a * 2 ^ N\<rfloor> = int (e + N)"
proof (rule ilog2_unique)
  have "2 ^ e * 2 ^ N \<le> a * 2 ^ N" using assms(1) by (rule mult_right_mono) simp
  then have "of_int (2 ^ (e + N)) \<le> a * 2 ^ N" by (simp add: power_add)
  then show "2 ^ (e + N) \<le> \<lfloor>a * 2 ^ N\<rfloor>" by (simp only: le_floor_iff)
  have "a * 2 ^ N < 2 ^ Suc e * 2 ^ N" using assms(2) by (rule mult_strict_right_mono) simp
  then have "a * 2 ^ N < of_int (2 ^ Suc (e + N))" by (simp add: power_add)
  then show "\<lfloor>a * 2 ^ N\<rfloor> < 2 ^ Suc (e + N)" by (simp only: floor_less_iff)
qed

text \<open>The result of an operation whose exact value lies between two powers of two.\<close>

lemma to_double_round:
  assumes lo: "2 ^ e \<le> \<bar>x\<bar>" and hi: "\<bar>x\<bar> < 2 ^ Suc e"
    and i: "round_even (x / 2 powi (int e - 52)) = i"
    and r: "r = of_int i * 2 powi (int e - 52)"
    and fin: "\<bar>r\<bar> < 2 ^ 1024"
  shows "to_double x = Num r"
proof -
  have "exponent x = int e"
    unfolding exponent_def ilog2_scaled [OF lo hi] by simp
  then have u: "ulp x = 2 powi (int e - 52)" by (simp add: ulp_def)
  have nb: "\<not> 2 ^ 1024 \<le> r" "\<not> r \<le> - (2 ^ 1024)" using abs_bound_split [OF fin] by blast+
  show ?thesis unfolding to_double_def Let_def u i r [symmetric] using nb by (simp only: if_False)
qed

text \<open>
  C10 (as stated, refuted).  At the maze size 31 the round trip of the cell with
  \<open>gx = 2\<^sup>5\<^sup>2 + 1\<close> gives the cell with \<open>gx = 2\<^sup>5\<^sup>2 + 2\<close>: the product with the cell size
  and the sums are rounded to doubles.
\<close>

theorem round_trip_rounded_counterexample:
  "worldToGrid (Num 31)
     (fst (gridToWorld (Num 31) (Num 4503599627370497) (Num 0)))
     (snd (gridToWorld (Num 31) (Num 4503599627370497) (Num 0)))
   = (Num 4503599627370498, Num 0)"
proof -
  have h: "js_div (Num 31) (Num 2) = Num (31 / 2)"
    using to_double_half [of 31] by simp
  have q: "js_div (Num 2.5) (Num 2) = Num (5 / 4)"
    using to_double_quarter [of 5] by simp
  have a: "js_sub (Num 4503599627370497) (Num (31 / 2)) = Num (9007199254740963 / 2)"
    using to_double_half [of 9007199254740963] by (simp add: js_sub_def)
  have b: "js_mul (Num (9007199254740963 / 2)) (Num 2.5) = Num 11258999068426204"
  proof -
    have "to_double (45035996273704815 / 4) = Num 11258999068426204"
      by (rule to_double_round [where e = 53 and i = 5629499534213102])
         (simp_all add: round_even_def Let_def)
    then show ?thesis by simp
  qed
  have c: "js_add (Num 11258999068426204) (Num (5 / 4)) = Num 11258999068426206"
  proof -
    have "to_double (45035996273704821 / 4) = Num 11258999068426206"
      by (rule to_double_round [where e = 53 and i = 5629499534213103])
         (simp_all add: round_even_def Let_def)
    then show ?thesis by simp
  qed
  have d: "js_div (Num 11258999068426206) (Num 2.5) = Num (9007199254740965 / 2)"
  proof -
    have "to_double (22517998136852412 / 5) = Num (9007199254740965 / 2)"
      by (rule to_double_round [where e = 51 and i = 9007199254740965])
         (simp_all add: round_even_def Let_def)
    then show ?thesis by simp
  qed
  have e: "js_add (Num (9007199254740965 / 2)) (Num (31 / 2)) = Num 4503599627370498"
    using to_double_int [of 4503599627370498] by simp
  have x: "js_floor (js_add (js_div
           (js_add (js_mul (js_sub (Num 4503599627370497) (js_div (Num 31) (Num 2))) (Num 2.5))
              (js_div (Num 2.5) (Num 2)))
           (Num 2.5)) (js_div (Num 31) (Num 2))) = Num 4503599627370498"
    unfolding h q a b c d e by simp
  have z: "js_floor (js_add (js_div
           (js_add (js_mul (js_sub (Num 0) (js_div (Num 31) (Num 2))) (Num 2.5))
              (js_div (Num 2.5) (Num 2)))
           (Num 2.5)) (js_div (Num 31) (Num 2))) = Num 0"
    using round_trip_coordinate [of 0 31] by simp
  show ?thesis
    unfolding worldToGrid_def gridToWorld_def Let_def CELL_SIZE_def fst_conv snd_conv x z ..
qed

text \<open>
  C10 (amended).  For every grid cell whose whole-number coordinates are at most \<open>2\<^sup>4\<^sup>9\<close> in
  magnitude and every whole-number maze size of at most that magnitude, converting the cell to
  its world point and back gives the cell again: up to there every intermediate result is a
  double, so that nothing is rounded.
\<close>

theorem worldToGrid_gridToWorld:
  fixes gx gz msize :: int
  assumes "\<bar>gx\<bar> \<le> 2 ^ 49" and "\<bar>gz\<bar> \<le> 2 ^ 49" and "\<bar>msize\<bar> \<le> 2 ^ 49"
  shows "worldToGrid (Num (of_int msize))
     (fst (gridToWorld (Num (of_int msize)) (Num (of_int gx)) (Num (of_int gz))))
     (snd (gridToWorld (Num (of_int msize)) (Num (of_int gx)) (Num (of_int gz))))
   = (Num (of_int gx), Num (of_int gz))"
  unfolding worldToGrid_def gridToWorld_def Let_def CELL_SIZE_def fst_conv snd_conv
    round_trip_coordinate [OF assms(1,3)] round_trip_coordinate [OF assms(2,3)] ..

text \<open>The hypotheses of C10 hold for the cell (3, 5) of a maze of the size 31.\<close>

theorem worldToGrid_gridToWorld_witness:
  "\<bar>3 :: int\<bar> \<le> 2 ^ 49 \<and> \<bar>5 :: int\<bar> \<le> 2 ^ 49 \<and> \<bar>31 :: int\<bar> \<le> 2 ^ 49 \<and>
   gridToWorld (Num 31) (Num 3) (Num 5) = (Num (- 30), Num (- 25)) \<and>
   worldToGrid (Num 31) (Num (- 30)) (Num (- 25)) = (Num 3, Num 5)"
proof -
  have b: "\<bar>3 :: int\<bar> \<le> 2 ^ 49" "\<bar>5 :: int\<bar> \<le> 2 ^ 49" "\<bar>31 :: int\<bar> \<le> 2 ^ 49" by simp_all
  have h: "js_div (Num 31) (Num 2) = Num (31 / 2)"
    using to_double_half [of 31] by simp
  have q: "js_div (Num 2.5) (Num 2) = Num (5 / 4)"
    using to_double_quarter [of 5] by simp
  have g: "gridToWorld (Num 31) (Num 3) (Num 5) = (Num (- 30), Num (- 25))"
    unfolding gridToWorld_def Let_def CELL_SIZE_def h q
    using to_double_half [of "- 25"] to_double_half [of "- 21"]
      to_double_quarter [of "- 125"] to_double_quarter [of "- 105"]
      to_double_int [of "- 30"] to_double_int [of "- 25"]
    by (simp add: js_sub_def)
  from worldToGrid_gridToWorld [OF b]
  have "worldToGrid (Num 31) (Num (- 30)) (Num (- 25)) = (Num 3, Num 5)"
    by (simp add: g)
  with b g show ?thesis by blast
qed

end
